theory Spec2Isabelle
  imports Main
begin

section \<open>JavaScript strings\<close>

text \<open>
  A JavaScript string is a sequence of UTF-16 code units. The patterns of
  \<^verbatim>\<open>src/utils/extractor.ts\<close> contain CJK characters, which do not fit into an
  8-bit \<^typ>\<open>char\<close>, so a string is modelled as the list of its code units.
  ASCII literals are written through \<open>js\<close>.
\<close>

type_synonym jstring = "nat list"

definition js :: "string \<Rightarrow> jstring" where
  "js cs = map of_char cs"

text \<open>White space and line terminators of ECMAScript: what \<^verbatim>\<open>\s\<close> matches and what
  \<^verbatim>\<open>String.prototype.trim\<close> removes.\<close>

definition js_space :: "nat \<Rightarrow> bool" where
  "js_space c \<longleftrightarrow>
     (9 \<le> c \<and> c \<le> 13) \<or> c = 32 \<or> c = 160 \<or> c = 5760 \<or> (8192 \<le> c \<and> c \<le> 8202) \<or>
     c = 8232 \<or> c = 8233 \<or> c = 8239 \<or> c = 8287 \<or> c = 12288 \<or> c = 65279"

definition js_digit :: "nat \<Rightarrow> bool" where
  "js_digit c \<longleftrightarrow> 48 \<le> c \<and> c \<le> 57"

definition to_upper :: "nat \<Rightarrow> nat" where
  "to_upper c = (if 97 \<le> c \<and> c \<le> 122 then c - 32 else c)"

definition to_lower :: "nat \<Rightarrow> nat" where
  "to_lower c = (if 65 \<le> c \<and> c \<le> 90 then c + 32 else c)"

definition trim :: "jstring \<Rightarrow> jstring" where
  "trim s = rev (dropWhile js_space (rev (dropWhile js_space s)))"

section \<open>Regular expressions\<close>

text \<open>
  The fragment of ECMAScript regular expressions that the source uses: literals,
  character classes (with \<^verbatim>\<open>\s\<close> and \<^verbatim>\<open>\d\<close>), sequence, alternation, the optional
  \<^verbatim>\<open>x?\<close>, quantified character classes (greedy and lazy, \<^verbatim>\<open>{m,n}\<close>), one capture
  group and the end anchor \<^verbatim>\<open>$\<close> (no \<^verbatim>\<open>m\<close> flag).

  Under the \<^verbatim>\<open>i\<close> flag two code units match when their canonical forms agree. Every
  pattern of the source that carries the flag is pure ASCII, and ECMAScript's
  Canonicalize never maps a code unit above 127 to one below 128, so the ASCII case
  mapping decides exactly the same matches.
\<close>

datatype citem = CChar nat | CRange nat nat | CSpace | CNonSpace | CDigit

datatype cclass = Pos "citem list" | Neg "citem list"

datatype regex =
    Lit jstring
  | One cclass
  | Seq regex regex
  | Alt regex regex
  | Opt regex
  | Many bool nat "nat option" cclass
  | Cap regex
  | EOI

fun citem_mem :: "bool \<Rightarrow> citem \<Rightarrow> nat \<Rightarrow> bool" where
  "citem_mem ic (CChar a) c = (if ic then to_upper a = to_upper c else a = c)"
| "citem_mem ic (CRange lo hi) c =
     ((lo \<le> c \<and> c \<le> hi) \<or>
      (ic \<and> ((lo \<le> to_upper c \<and> to_upper c \<le> hi) \<or> (lo \<le> to_lower c \<and> to_lower c \<le> hi))))"
| "citem_mem ic CSpace c = js_space c"
| "citem_mem ic CNonSpace c = (\<not> js_space c)"
| "citem_mem ic CDigit c = js_digit c"

fun cclass_mem :: "bool \<Rightarrow> cclass \<Rightarrow> nat \<Rightarrow> bool" where
  "cclass_mem ic (Pos items) c = list_ex (\<lambda>it. citem_mem ic it c) items"
| "cclass_mem ic (Neg items) c = (\<not> list_ex (\<lambda>it. citem_mem ic it c) items)"

fun lit_match :: "bool \<Rightarrow> jstring \<Rightarrow> jstring \<Rightarrow> jstring option" where
  "lit_match ic [] s = Some s"
| "lit_match ic (a # as) [] = None"
| "lit_match ic (a # as) (x # xs) =
     (if citem_mem ic (CChar a) x then lit_match ic as xs else None)"

text \<open>
  Backtracking as in the ECMAScript specification: the matcher takes a continuation
  and the first alternative whose continuation succeeds wins. A greedy quantifier
  first tries one more repetition and falls back to stopping; a lazy one tries to
  stop first.
\<close>

fun many_match :: "bool \<Rightarrow> (nat \<Rightarrow> bool) \<Rightarrow> nat \<Rightarrow> nat option \<Rightarrow> (jstring \<Rightarrow> 'a option) \<Rightarrow>
    jstring \<Rightarrow> 'a option" where
  "many_match greedy p mn mx k [] = (if mn = 0 then k [] else None)"
| "many_match greedy p mn mx k (x # xs) =
     (if p x \<and> mx \<noteq> Some 0 then
        (if greedy then
           (case many_match greedy p (mn - 1) (map_option (\<lambda>m. m - 1) mx) k xs of
              Some r \<Rightarrow> Some r
            | None \<Rightarrow> if mn = 0 then k (x # xs) else None)
         else
           (case (if mn = 0 then k (x # xs) else None) of
              Some r \<Rightarrow> Some r
            | None \<Rightarrow> many_match greedy p (mn - 1) (map_option (\<lambda>m. m - 1) mx) k xs))
      else if mn = 0 then k (x # xs) else None)"

fun rmatch :: "bool \<Rightarrow> regex \<Rightarrow> (jstring \<Rightarrow> jstring option \<Rightarrow> 'a option) \<Rightarrow>
    jstring \<Rightarrow> jstring option \<Rightarrow> 'a option" where
  "rmatch ic (Lit w) k s c = (case lit_match ic w s of None \<Rightarrow> None | Some s' \<Rightarrow> k s' c)"
| "rmatch ic (One cl) k s c =
     (case s of [] \<Rightarrow> None | x # xs \<Rightarrow> if cclass_mem ic cl x then k xs c else None)"
| "rmatch ic (Seq a b) k s c = rmatch ic a (\<lambda>s' c'. rmatch ic b k s' c') s c"
| "rmatch ic (Alt a b) k s c =
     (case rmatch ic a k s c of Some r \<Rightarrow> Some r | None \<Rightarrow> rmatch ic b k s c)"
| "rmatch ic (Opt a) k s c =
     (case rmatch ic a k s c of Some r \<Rightarrow> Some r | None \<Rightarrow> k s c)"
| "rmatch ic (Many greedy mn mx cl) k s c =
     many_match greedy (cclass_mem ic cl) mn mx (\<lambda>s'. k s' c) s"
| "rmatch ic (Cap a) k s c =
     rmatch ic a (\<lambda>s' c'. k s' (Some (take (length s - length s') s))) s c"
| "rmatch ic EOI k s c = (if s = [] then k s c else None)"

text \<open>The match object: \<^verbatim>\<open>index\<close>, the end index, \<^verbatim>\<open>match[0]\<close> and \<^verbatim>\<open>match[1]\<close>.\<close>

record rmatch_result =
  m_index :: nat
  m_end :: nat
  m_text :: jstring
  m_group :: "jstring option"

definition match_at :: "bool \<Rightarrow> regex \<Rightarrow> nat \<Rightarrow> jstring \<Rightarrow> rmatch_result option" where
  "match_at ic r i s =
     (case rmatch ic r (\<lambda>s' c. Some (s', c)) s None of
        None \<Rightarrow> None
      | Some (s', c) \<Rightarrow>
          Some \<lparr>m_index = i, m_end = i + (length s - length s'),
                m_text = take (length s - length s') s, m_group = c\<rparr>)"

text \<open>The leftmost match at or after a position; \<open>s\<close> is the input from index \<open>i\<close> on.\<close>

fun search_from :: "bool \<Rightarrow> regex \<Rightarrow> nat \<Rightarrow> jstring \<Rightarrow> rmatch_result option" where
  "search_from ic r i [] = match_at ic r i []"
| "search_from ic r i (x # xs) =
     (case match_at ic r i (x # xs) of
        Some m \<Rightarrow> Some m
      | None \<Rightarrow> search_from ic r (i + 1) xs)"

text \<open>A regular expression object: the pattern, the \<^verbatim>\<open>i\<close> flag and \<^verbatim>\<open>lastIndex\<close>.\<close>

record regexp =
  source :: regex
  ignoreCase :: bool
  lastIndex :: nat

definition mk_regexp :: "regex \<Rightarrow> bool \<Rightarrow> regexp" where
  "mk_regexp r ic = \<lparr>source = r, ignoreCase = ic, lastIndex = 0\<rparr>"

text \<open>
  \<^verbatim>\<open>RegExp.prototype.exec\<close> of a regular expression with the \<^verbatim>\<open>g\<close> flag: the search
  starts at \<^verbatim>\<open>lastIndex\<close>; a match moves \<^verbatim>\<open>lastIndex\<close> to its end, a failure sets
  it to zero.
\<close>

definition exec :: "regexp \<Rightarrow> jstring \<Rightarrow> rmatch_result option \<times> regexp" where
  "exec p s =
     (if lastIndex p > length s then (None, p\<lparr>lastIndex := 0\<rparr>)
      else
        (case search_from (ignoreCase p) (source p) (lastIndex p) (drop (lastIndex p) s) of
           None \<Rightarrow> (None, p\<lparr>lastIndex := 0\<rparr>)
         | Some m \<Rightarrow> (Some m, p\<lparr>lastIndex := m_end m\<rparr>)))"

text \<open>Without the \<^verbatim>\<open>g\<close> flag (\<^verbatim>\<open>test\<close>, \<^verbatim>\<open>match\<close>, \<^verbatim>\<open>replace\<close>) the search starts at 0.\<close>

definition rx_match :: "bool \<Rightarrow> regex \<Rightarrow> jstring \<Rightarrow> rmatch_result option" where
  "rx_match ic r s = search_from ic r 0 s"

definition rx_test :: "bool \<Rightarrow> regex \<Rightarrow> jstring \<Rightarrow> bool" where
  "rx_test ic r s = (rx_match ic r s \<noteq> None)"

definition replace_first :: "bool \<Rightarrow> regex \<Rightarrow> jstring \<Rightarrow> jstring \<Rightarrow> jstring" where
  "replace_first ic r rep s =
     (case rx_match ic r s of
        None \<Rightarrow> s
      | Some m \<Rightarrow> take (m_index m) s @ rep @ drop (m_end m) s)"

section \<open>String functions\<close>

text \<open>
  \<^verbatim>\<open>String.prototype.replace\<close> with a regular expression that has the \<^verbatim>\<open>g\<close> flag:
  the matches are found from left to right without overlap; each is replaced by
  what the replacer returns for it. After an empty match the search moves on by
  one code unit. \<open>skip\<close> counts the code units of the current match still to be
  passed over.
\<close>

fun replace_walk :: "bool \<Rightarrow> regex \<Rightarrow> (rmatch_result \<Rightarrow> jstring) \<Rightarrow> nat \<Rightarrow> nat \<Rightarrow> jstring \<Rightarrow>
    jstring" where
  "replace_walk ic r f i skip [] =
     (if skip = 0 then (case match_at ic r i [] of Some m \<Rightarrow> f m | None \<Rightarrow> []) else [])"
| "replace_walk ic r f i skip (x # xs) =
     (if 0 < skip then replace_walk ic r f (i + 1) (skip - 1) xs
      else
        (case match_at ic r i (x # xs) of
           None \<Rightarrow> x # replace_walk ic r f (i + 1) 0 xs
         | Some m \<Rightarrow>
             if m_end m = m_index m then f m @ x # replace_walk ic r f (i + 1) 0 xs
             else f m @ replace_walk ic r f (i + 1) (m_end m - m_index m - 1) xs))"

definition replace_all :: "bool \<Rightarrow> regex \<Rightarrow> (rmatch_result \<Rightarrow> jstring) \<Rightarrow> jstring \<Rightarrow> jstring" where
  "replace_all ic r f s = replace_walk ic r f 0 0 s"

text \<open>\<^verbatim>\<open>String.prototype.indexOf\<close>: the first index of the needle, or -1.\<close>

fun index_from :: "jstring \<Rightarrow> nat \<Rightarrow> jstring \<Rightarrow> int" where
  "index_from w i [] = (if w = [] then int i else - 1)"
| "index_from w i (x # xs) =
     (if take (length w) (x # xs) = w then int i else index_from w (i + 1) xs)"

definition indexOf :: "jstring \<Rightarrow> jstring \<Rightarrow> int" where
  "indexOf s w = index_from w 0 s"

text \<open>\<^verbatim>\<open>s.substring(n)\<close>; a negative start counts as 0.\<close>

definition substring :: "jstring \<Rightarrow> int \<Rightarrow> jstring" where
  "substring s n = drop (nat n) s"

text \<open>\<^verbatim>\<open>String.prototype.split\<close> with a string separator.\<close>

fun split_walk :: "jstring \<Rightarrow> nat \<Rightarrow> jstring \<Rightarrow> jstring \<Rightarrow> jstring list" where
  "split_walk sep skip cur [] = [cur]"
| "split_walk sep skip cur (x # xs) =
     (if 0 < skip then split_walk sep (skip - 1) cur xs
      else if take (length sep) (x # xs) = sep then cur # split_walk sep (length sep - 1) [] xs
      else split_walk sep 0 (cur @ [x]) xs)"

definition split :: "jstring \<Rightarrow> jstring \<Rightarrow> jstring list" where
  "split s sep = (if sep = [] then map (\<lambda>c. [c]) s else split_walk sep 0 [] s)"

section \<open>The MIME normalizer (src/handlers/email.ts)\<close>

subsection \<open>atob\<close>

text \<open>
  \<^verbatim>\<open>atob\<close> is a built-in of the runtime, not code of the repository. It is the
  forgiving-base64 decode of the HTML standard: ASCII white space is removed; if the
  length is a multiple of 4, one or two trailing \<^verbatim>\<open>=\<close> are removed; a length of
  1 modulo 4 or a code unit outside the base64 alphabet throws
  \<^verbatim>\<open>InvalidCharacterError\<close>.
\<close>

datatype js_error = InvalidCharacterError

definition ascii_ws :: "nat \<Rightarrow> bool" where
  "ascii_ws c \<longleftrightarrow> c = 9 \<or> c = 10 \<or> c = 12 \<or> c = 13 \<or> c = 32"

definition b64_value :: "nat \<Rightarrow> nat option" where
  "b64_value c =
     (if 65 \<le> c \<and> c \<le> 90 then Some (c - 65)
      else if 97 \<le> c \<and> c \<le> 122 then Some (c - 71)
      else if 48 \<le> c \<and> c \<le> 57 then Some (c + 4)
      else if c = 43 then Some 62
      else if c = 47 then Some 63
      else None)"

fun b64_bytes :: "nat list \<Rightarrow> jstring" where
  "b64_bytes (a # b # c # d # rest) =
     [a * 4 + b div 16, (b mod 16) * 16 + c div 4, (c mod 4) * 64 + d] @ b64_bytes rest"
| "b64_bytes [a, b, c] = [a * 4 + b div 16, (b mod 16) * 16 + c div 4]"
| "b64_bytes [a, b] = [a * 4 + b div 16]"
| "b64_bytes [a] = []"
| "b64_bytes [] = []"

definition strip_padding :: "jstring \<Rightarrow> jstring" where
  "strip_padding d =
     (if length d mod 4 = 0 \<and> d \<noteq> [] \<and> last d = 61 then
        (if butlast d \<noteq> [] \<and> last (butlast d) = 61 then butlast (butlast d) else butlast d)
      else d)"

definition atob :: "jstring \<Rightarrow> js_error + jstring" where
  "atob s =
     (let d = strip_padding (filter (\<lambda>c. \<not> ascii_ws c) s)
      in if length d mod 4 = 1 then Inl InvalidCharacterError
         else if list_ex (\<lambda>c. b64_value c = None) d then Inl InvalidCharacterError
         else Inr (b64_bytes (map (\<lambda>c. the (b64_value c)) d)))"

subsection \<open>decodeQuotedPrintable\<close>

definition hex_digit :: cclass where
  "hex_digit = Pos [CRange 48 57, CRange 65 70, CRange 97 102]"

definition hex_val :: "nat \<Rightarrow> nat" where
  "hex_val c = (if c \<le> 57 then c - 48 else if c \<le> 70 then c - 55 else c - 87)"

definition parseInt16 :: "jstring \<Rightarrow> nat" where
  "parseInt16 h = foldl (\<lambda>a c. a * 16 + hex_val c) 0 h"

definition fromCharCode :: "nat \<Rightarrow> jstring" where
  "fromCharCode n = [n mod 65536]"

definition decodeQuotedPrintable :: "jstring \<Rightarrow> jstring" where
  "decodeQuotedPrintable input =
     replace_all False (Seq (Lit (js ''='')) (Cap (Many True 2 (Some 2) hex_digit)))
       (\<lambda>m. case m_group m of Some hex \<Rightarrow> fromCharCode (parseInt16 hex) | None \<Rightarrow> [])
       (replace_all False (Seq (Lit (js ''='')) (Seq (Opt (Lit [13])) (Lit [10]))) (\<lambda>m. [])
          input)"

subsection \<open>htmlToText\<close>

definition any_char :: cclass where
  "any_char = Pos [CSpace, CNonSpace]"

definition block_rx :: "string \<Rightarrow> regex" where
  "block_rx tag =
     Seq (Lit (js (''<'' @ tag))) (Seq (Many True 0 None (Neg [CChar 62])) (Seq (Lit (js ''>''))
       (Seq (Many False 0 None any_char) (Lit (js (''</'' @ tag @ ''>''))))))"

definition htmlToText :: "jstring \<Rightarrow> jstring" where
  "htmlToText html =
     trim
      (replace_all False (Many True 3 None (Pos [CChar 10])) (\<lambda>m. [10, 10])
      (replace_all False (Lit (js ''&#39;'')) (\<lambda>m. [39])
      (replace_all False (Lit (js ''&quot;'')) (\<lambda>m. [34])
      (replace_all False (Lit (js ''&gt;'')) (\<lambda>m. js ''>'')
      (replace_all False (Lit (js ''&lt;'')) (\<lambda>m. js ''<'')
      (replace_all False (Lit (js ''&amp;'')) (\<lambda>m. js ''&'')
      (replace_all False (Lit (js ''&nbsp;'')) (\<lambda>m. js '' '')
      (replace_all False (Seq (Lit (js ''<'')) (Seq (Many True 1 None (Neg [CChar 62])) (Lit (js ''>''))))
         (\<lambda>m. [])
      (replace_all True (Lit (js ''</div>'')) (\<lambda>m. [10])
      (replace_all True (Lit (js ''</p>'')) (\<lambda>m. [10, 10])
      (replace_all True
         (Seq (Lit (js ''<br'')) (Seq (Many True 0 None (Pos [CSpace])) (Seq (Opt (Lit (js ''/'')))
           (Lit (js ''>'')))))
         (\<lambda>m. [10])
      (replace_all True (block_rx ''script'') (\<lambda>m. [])
      (replace_all True (block_rx ''style'') (\<lambda>m. []) html)))))))))))))"

subsection \<open>parseMimeContent\<close>

definition boundary_rx :: regex where
  "boundary_rx =
     Seq (Lit (js ''boundary='')) (Seq (Opt (Lit [34]))
       (Seq (Cap (Many True 1 None (Neg [CChar 34, CChar 13, CChar 10]))) (Opt (Lit [34]))))"

definition header_rx :: "string \<Rightarrow> string \<Rightarrow> regex" where
  "header_rx name val =
     Seq (Lit (js (name @ '':''))) (Seq (Many True 0 None (Pos [CSpace])) (Lit (js val)))"

definition is_html :: "jstring \<Rightarrow> bool" where
  "is_html s = rx_test True (header_rx ''content-type'' ''text/html'') s"

definition is_plain :: "jstring \<Rightarrow> bool" where
  "is_plain s = rx_test True (header_rx ''content-type'' ''text/plain'') s"

definition is_qp :: "jstring \<Rightarrow> bool" where
  "is_qp s = rx_test True (header_rx ''content-transfer-encoding'' ''quoted-printable'') s"

definition is_base64 :: "jstring \<Rightarrow> bool" where
  "is_base64 s = rx_test True (header_rx ''content-transfer-encoding'' ''base64'') s"

definition crlfcrlf :: jstring where
  "crlfcrlf = [13, 10, 13, 10]"

record normalized_body =
  body_text :: jstring
  body_html :: "jstring option"

text \<open>
  The transfer decoding, written twice in the source (once per path) with the same
  shape: \<open>scope\<close> is the text whose headers are searched (the raw message or the
  part), \<open>body\<close> the text to decode. The \<^verbatim>\<open>catch\<close> keeps the undecoded text.
\<close>

definition transfer_decode :: "jstring \<Rightarrow> jstring \<Rightarrow> jstring" where
  "transfer_decode scope body =
     (if is_qp scope then decodeQuotedPrintable body
      else if is_base64 scope then
        (case atob (replace_all False (One (Pos [CSpace])) (\<lambda>m. []) body) of
           Inr decoded \<Rightarrow> decoded
         | Inl err \<Rightarrow> body)
      else body)"

definition single_part :: "jstring \<Rightarrow> normalized_body" where
  "single_part raw =
     (let isHtml = is_html raw;
          bodyStart = indexOf raw crlfcrlf;
          body = (if 0 < bodyStart then substring raw (bodyStart + 4) else raw);
          decoded = transfer_decode raw body
      in if isHtml then \<lparr>body_text = htmlToText decoded, body_html = Some decoded\<rparr>
         else \<lparr>body_text = decoded, body_html = None\<rparr>)"

text \<open>The decoded content of a part that has a header/body separator.\<close>

definition part_content :: "jstring \<Rightarrow> jstring" where
  "part_content part =
     transfer_decode part (trim (substring part (indexOf part crlfcrlf + 4)))"

text \<open>One iteration of the loop over the parts; the state is \<open>(text, html)\<close>.\<close>

definition part_step :: "jstring \<times> jstring option \<Rightarrow> jstring \<Rightarrow> jstring \<times> jstring option" where
  "part_step st part =
     (if trim part = [] \<or> trim part = js ''--'' then st
      else if \<not> is_plain part \<and> \<not> is_html part then st
      else if indexOf part crlfcrlf < 0 then st
      else if is_plain part \<and> fst st = [] then (part_content part, snd st)
      else if is_html part then (fst st, Some (part_content part))
      else st)"

definition multi_part :: "jstring \<Rightarrow> jstring \<Rightarrow> normalized_body" where
  "multi_part boundary raw =
     (let parts = split raw (js ''--'' @ boundary);
          (text, html) = foldl part_step ([], None) parts
      in case html of
           Some h \<Rightarrow>
             if text = [] \<and> h \<noteq> [] then \<lparr>body_text = htmlToText h, body_html = html\<rparr>
             else \<lparr>body_text = text, body_html = html\<rparr>
         | None \<Rightarrow> \<lparr>body_text = text, body_html = html\<rparr>)"

text \<open>
  \<^verbatim>\<open>raw.match(/boundary="?([^"\r\n]+)"?/i)\<close> searches the whole raw message. The
  only operation that can throw is \<^verbatim>\<open>atob\<close>, and both calls are inside a
  \<^verbatim>\<open>try\<close>; the result type still keeps the error branch.
\<close>

definition boundary_of :: "jstring \<Rightarrow> jstring option" where
  "boundary_of raw =
     (case rx_match True boundary_rx raw of
        None \<Rightarrow> None
      | Some m \<Rightarrow> (case m_group m of Some b \<Rightarrow> Some b | None \<Rightarrow> Some (js ''undefined'')))"

definition parseMimeContent :: "jstring \<Rightarrow> js_error + normalized_body" where
  "parseMimeContent raw =
     (case boundary_of raw of
        None \<Rightarrow> Inr (single_part raw)
      | Some boundary \<Rightarrow> Inr (multi_part boundary raw))"

section \<open>The signal extractor (src/utils/extractor.ts)\<close>

definition digits48 :: regex where
  "digits48 = Cap (Many True 4 (Some 8) (Pos [CDigit]))"

definition colon_space :: cclass where
  "colon_space = Pos [CChar 58, CSpace]"

definition cn_colon_space :: cclass where
  "cn_colon_space = Pos [CChar 65306, CChar 58, CSpace]"

definition spaces1 :: regex where
  "spaces1 = Many True 1 None (Pos [CSpace])"

definition spaces0 :: regex where
  "spaces0 = Many True 0 None (Pos [CSpace])"

fun alts :: "string list \<Rightarrow> regex" where
  "alts [] = Lit []"
| "alts [w] = Lit (js w)"
| "alts (w # ws) = Alt (Lit (js w)) (alts ws)"

text \<open>The ten code patterns, in the order of the array \<^verbatim>\<open>codePatterns\<close>.\<close>

definition code_pat1 :: regex where
  "code_pat1 =
     Seq (alts [''code'', ''otp'', ''pin'', ''passcode'', ''password'', ''verification''])
       (Seq (Many True 1 None colon_space) digits48)"

definition code_pat2 :: regex where
  "code_pat2 =
     Seq (alts [''enter'', ''use'', ''your''])
       (Seq spaces1 (Seq (alts [''code'', ''otp'', ''pin''])
         (Seq (Many True 1 None colon_space) digits48)))"

definition code_pat3 :: regex where
  "code_pat3 =
     Seq digits48 (Seq spaces1 (Seq (Opt (alts [''is your'', ''is the'']))
       (Seq spaces0 (alts [''code'', ''otp'', ''pin'', ''verification'']))))"

definition code_pat4 :: regex where
  "code_pat4 = Seq (Lit (js ''verification'')) (Seq (Many True 0 None colon_space) digits48)"

definition code_pat5 :: regex where
  "code_pat5 =
     Seq (Lit (js ''one-time'')) (Seq spaces0 (Seq (alts [''password'', ''code''])
       (Seq (Many True 0 None colon_space) digits48)))"

definition cn_label :: "jstring \<Rightarrow> regex" where
  "cn_label w = Seq (Lit w) (Seq (Many True 0 None cn_colon_space) digits48)"

definition code_pat6 :: regex where
  "code_pat6 = cn_label [39564, 35777, 30721]"

definition code_pat7 :: regex where
  "code_pat7 = cn_label [26657, 39564, 30721]"

definition code_pat8 :: regex where
  "code_pat8 = cn_label [21160, 24577, 30721]"

definition code_pat9 :: regex where
  "code_pat9 = cn_label [23433, 20840, 30721]"

definition code_pat10 :: regex where
  "code_pat10 =
     Seq digits48 (Seq (Opt (One (Pos [CChar 26159, CChar 20026])))
       (Seq (One (Pos [CChar 24744, CChar 20320])) (Seq (Opt (Lit [30340]))
         (Lit [39564, 35777, 30721]))))"

definition codePatterns :: "regexp list" where
  "codePatterns =
     [mk_regexp code_pat1 True, mk_regexp code_pat2 True, mk_regexp code_pat3 True,
      mk_regexp code_pat4 True, mk_regexp code_pat5 True,
      mk_regexp code_pat6 False, mk_regexp code_pat7 False, mk_regexp code_pat8 False,
      mk_regexp code_pat9 False, mk_regexp code_pat10 False]"

text \<open>The five link patterns, in the order of the array \<^verbatim>\<open>linkPatterns\<close>.\<close>

definition url_char :: cclass where
  "url_char = Neg [CSpace, CChar 60, CChar 62, CChar 34]"

definition url_head :: regex where
  "url_head = Seq (Lit (js ''http'')) (Seq (Opt (Lit (js ''s''))) (Seq (Lit (js ''://''))
     (Many True 1 None url_char)))"

definition keyword_link :: "string list \<Rightarrow> regex" where
  "keyword_link ws = Seq url_head (Seq (alts ws) (Many True 0 None url_char))"

definition link_pat1 :: regex where
  "link_pat1 = keyword_link [''verify'', ''confirm'', ''activate'', ''validate'', ''auth'']"

definition link_pat2 :: regex where
  "link_pat2 = keyword_link [''reset'', ''password'', ''recover'']"

definition link_pat3 :: regex where
  "link_pat3 = keyword_link [''magic'', ''login'', ''signin'', ''sign-in'']"

definition link_pat4 :: regex where
  "link_pat4 =
     Seq url_head (Seq (One (Pos [CChar 63, CChar 38])) (Seq (alts [''token'', ''code'', ''key''])
       (Seq (Lit (js ''=''))
         (Seq (Many True 1 None (Pos [CRange 97 122, CRange 65 90, CRange 48 57, CChar 95, CChar 45]))
           (Many True 0 None url_char)))))"

definition link_pat5 :: regex where
  "link_pat5 = keyword_link [''unsubscribe'', ''opt-out'', ''optout'']"

definition linkPatterns :: "regexp list" where
  "linkPatterns =
     [mk_regexp link_pat1 True, mk_regexp link_pat2 True, mk_regexp link_pat3 True,
      mk_regexp link_pat4 True, mk_regexp link_pat5 True]"

text \<open>
  Both arrays are module-level constants: the regular expression objects, and with
  them their \<^verbatim>\<open>lastIndex\<close>, live as long as the module. The module state is
  therefore threaded through \<open>extractData\<close>.
\<close>

record module_state =
  code_rx :: "regexp list"
  link_rx :: "regexp list"

definition initial_state :: module_state where
  "initial_state = \<lparr>code_rx = codePatterns, link_rx = linkPatterns\<rparr>"

record extracted_data =
  code :: "jstring option"
  links :: "jstring list option"

text \<open>
  The loop over \<^verbatim>\<open>codePatterns\<close>. A match with a non-empty first group ends the loop
  by \<^verbatim>\<open>break\<close>, before the statement that resets \<^verbatim>\<open>lastIndex\<close>; the patterns after
  it are not touched.
\<close>

fun code_loop :: "regexp list \<Rightarrow> jstring \<Rightarrow> jstring option \<times> regexp list" where
  "code_loop [] content = (None, [])"
| "code_loop (p # ps) content =
     (case exec p content of
        (Some m, p') \<Rightarrow>
          (case m_group m of
             Some g \<Rightarrow>
               if g \<noteq> [] then (Some g, p' # ps)
               else (case code_loop ps content of (res, ps') \<Rightarrow> (res, p'\<lparr>lastIndex := 0\<rparr> # ps'))
           | None \<Rightarrow> (case code_loop ps content of (res, ps') \<Rightarrow> (res, p'\<lparr>lastIndex := 0\<rparr> # ps')))
      | (None, p') \<Rightarrow> (case code_loop ps content of (res, ps') \<Rightarrow> (res, p'\<lparr>lastIndex := 0\<rparr> # ps')))"

text \<open>\<^verbatim>\<open>match[0].replace(/[.,;:!?)\]}>]+$/, '')\<close>\<close>

definition trailing_punct :: cclass where
  "trailing_punct =
     Pos [CChar 46, CChar 44, CChar 59, CChar 58, CChar 33, CChar 63, CChar 41, CChar 93,
          CChar 125, CChar 62]"

definition clean_url :: "jstring \<Rightarrow> jstring" where
  "clean_url u = replace_first False (Seq (Many True 1 None trailing_punct) EOI) [] u"

text \<open>\<^verbatim>\<open>Set.prototype.add\<close> on the insertion-ordered set of links.\<close>

definition set_add :: "jstring list \<Rightarrow> jstring \<Rightarrow> jstring list" where
  "set_add ls u = (if u \<in> set ls then ls else ls @ [u])"

text \<open>
  The inner \<^verbatim>\<open>while\<close> loop runs \<^verbatim>\<open>exec\<close> until it fails. A match that does not move
  \<^verbatim>\<open>lastIndex\<close> forward would be found again forever: that is the result \<open>None\<close>.
\<close>

function while_exec :: "regexp \<Rightarrow> jstring \<Rightarrow> jstring list \<Rightarrow> (jstring list \<times> regexp) option" where
  "while_exec p content ls =
     (case exec p content of
        (None, p') \<Rightarrow> Some (ls, p')
      | (Some m, p') \<Rightarrow>
          if lastIndex p < lastIndex p'
          then while_exec p' content (set_add ls (clean_url (m_text m)))
          else None)"
  by pat_completeness auto
termination
  by (relation "measure (\<lambda>(p, content, ls). Suc (length content) - lastIndex p)")
    (auto simp: exec_def split: if_splits option.splits)

declare while_exec.simps [simp del]

fun link_loop :: "regexp list \<Rightarrow> jstring \<Rightarrow> jstring list \<Rightarrow> (jstring list \<times> regexp list) option" where
  "link_loop [] content ls = Some (ls, [])"
| "link_loop (p # ps) content ls =
     (case while_exec p content ls of
        None \<Rightarrow> None
      | Some (ls', p') \<Rightarrow>
          (case link_loop ps content ls' of
             None \<Rightarrow> None
           | Some (ls'', ps') \<Rightarrow> Some (ls'', p'\<lparr>lastIndex := 0\<rparr> # ps')))"

text \<open>The template literal \<^verbatim>\<open>`${text} ${html || ''}`\<close>.\<close>

definition content_of :: "jstring \<Rightarrow> jstring option \<Rightarrow> jstring" where
  "content_of text html = text @ [32] @ (case html of None \<Rightarrow> [] | Some h \<Rightarrow> h)"

definition extractData :: "module_state \<Rightarrow> jstring \<Rightarrow> jstring option \<Rightarrow>
    (extracted_data \<times> module_state) option" where
  "extractData st text html =
     (let content = content_of text html;
          (c, crx) = code_loop (code_rx st) content
      in case link_loop (link_rx st) content [] of
           None \<Rightarrow> None
         | Some (ls, lrx) \<Rightarrow>
             Some (\<lparr>code = c, links = (if ls \<noteq> [] then Some ls else None)\<rparr>,
                   \<lparr>code_rx = crx, link_rx = lrx\<rparr>))"

section \<open>What a match can be\<close>

text \<open>
  The words a pattern can match, without the backtracking order: every match that
  the matcher reports is one of them. \<open>cap_lang\<close> does the same for the text of the
  capture group, and \<open>must_cap\<close> holds when every match sets the group.
\<close>

fun in_lang :: "bool \<Rightarrow> regex \<Rightarrow> jstring \<Rightarrow> bool" where
  "in_lang ic (Lit w) v = (lit_match ic w v = Some [])"
| "in_lang ic (One cl) v = (case v of [x] \<Rightarrow> cclass_mem ic cl x | _ \<Rightarrow> False)"
| "in_lang ic (Seq a b) v = (\<exists>n. n \<le> length v \<and> in_lang ic a (take n v) \<and> in_lang ic b (drop n v))"
| "in_lang ic (Alt a b) v = (in_lang ic a v \<or> in_lang ic b v)"
| "in_lang ic (Opt a) v = (v = [] \<or> in_lang ic a v)"
| "in_lang ic (Many g mn mx cl) v =
     (mn \<le> length v \<and> (case mx of None \<Rightarrow> True | Some m \<Rightarrow> length v \<le> m) \<and>
      list_all (cclass_mem ic cl) v)"
| "in_lang ic (Cap a) v = in_lang ic a v"
| "in_lang ic EOI v = (v = [])"

fun cap_lang :: "bool \<Rightarrow> regex \<Rightarrow> jstring \<Rightarrow> bool" where
  "cap_lang ic (Cap a) d = (in_lang ic a d \<or> cap_lang ic a d)"
| "cap_lang ic (Seq a b) d = (cap_lang ic a d \<or> cap_lang ic b d)"
| "cap_lang ic (Alt a b) d = (cap_lang ic a d \<or> cap_lang ic b d)"
| "cap_lang ic (Opt a) d = cap_lang ic a d"
| "cap_lang ic r d = False"

fun must_cap :: "regex \<Rightarrow> bool" where
  "must_cap (Cap a) = True"
| "must_cap (Seq a b) = (must_cap a \<or> must_cap b)"
| "must_cap (Alt a b) = (must_cap a \<and> must_cap b)"
| "must_cap r = False"

definition cap_res :: "bool \<Rightarrow> regex \<Rightarrow> jstring option \<Rightarrow> jstring option \<Rightarrow> bool" where
  "cap_res ic r c c' \<longleftrightarrow>
     (c' = c \<or> (\<exists>d. c' = Some d \<and> cap_lang ic r d)) \<and>
     (must_cap r \<longrightarrow> (\<exists>d. c' = Some d \<and> cap_lang ic r d))"

section \<open>Two calls in a row\<close>

text \<open>
  \<^verbatim>\<open>handleGetEmail\<close> calls \<open>extractData\<close> on every request, always on the same
  module-level pattern objects: the second call starts from the state that the first
  one left.
\<close>

definition call_twice :: "module_state \<Rightarrow> jstring \<Rightarrow> jstring option \<Rightarrow>
    (extracted_data \<times> extracted_data) option" where
  "call_twice st text html =
     (case extractData st text html of
        None \<Rightarrow> None
      | Some (d1, st1) \<Rightarrow>
          (case extractData st1 text html of
             None \<Rightarrow> None
           | Some (d2, st2) \<Rightarrow> Some (d1, d2)))"

section \<open>Module states\<close>

text \<open>
  The states the module can be in: the pattern objects are those of the source, only
  their \<^verbatim>\<open>lastIndex\<close> may differ. In a fresh state the code patterns are at
  \<^verbatim>\<open>lastIndex = 0\<close>, as they are when the module is loaded. \<open>code_shape\<close> says that
  a pattern always sets its group, and only to 4 to 8 digits.
\<close>

definition same_sources :: "regexp list \<Rightarrow> regexp list \<Rightarrow> bool" where
  "same_sources ps qs \<longleftrightarrow>
     map source ps = map source qs \<and> map ignoreCase ps = map ignoreCase qs"

definition loaded :: "module_state \<Rightarrow> bool" where
  "loaded st \<longleftrightarrow> same_sources (code_rx st) codePatterns \<and> same_sources (link_rx st) linkPatterns"

definition fresh_code_patterns :: "module_state \<Rightarrow> bool" where
  "fresh_code_patterns st \<longleftrightarrow> list_all (\<lambda>p. lastIndex p = 0) (code_rx st)"

definition code_shape :: "bool \<Rightarrow> regex \<Rightarrow> bool" where
  "code_shape ic r \<longleftrightarrow>
     must_cap r \<and> (\<forall>d. cap_lang ic r d \<longrightarrow> 4 \<le> length d \<and> length d \<le> 8 \<and> list_all js_digit d)"

section \<open>What the extractor is to return\<close>

text \<open>
  The code, as the specification words it: the patterns are tried in their order, and
  the first one that matches anywhere in the content gives its group.
\<close>

definition first_pattern_code :: "regexp list \<Rightarrow> jstring \<Rightarrow> jstring option" where
  "first_pattern_code ps content =
     (case List.find (\<lambda>p. rx_test (ignoreCase p) (source p) content) ps of
        None \<Rightarrow> None
      | Some p \<Rightarrow>
          (case rx_match (ignoreCase p) (source p) content of
             None \<Rightarrow> None
           | Some m \<Rightarrow> m_group m))"

text \<open>
  The links, as the specification words it: all matches of a pattern from left to
  right, without overlap (\<open>skip\<close> counts the code units of the current match still to
  be passed over); every match without its trailing punctuation; pattern after
  pattern; each string kept where it first occurs; null when there is none.
\<close>

fun matches_walk :: "bool \<Rightarrow> regex \<Rightarrow> nat \<Rightarrow> jstring \<Rightarrow> jstring list" where
  "matches_walk ic r skip [] = []"
| "matches_walk ic r skip (x # xs) =
     (if 0 < skip then matches_walk ic r (skip - 1) xs
      else
        (case match_at ic r 0 (x # xs) of
           None \<Rightarrow> matches_walk ic r 0 xs
         | Some m \<Rightarrow> m_text m # matches_walk ic r (length (m_text m) - 1) xs))"

definition all_matches :: "regexp \<Rightarrow> jstring \<Rightarrow> jstring list" where
  "all_matches p s = matches_walk (ignoreCase p) (source p) 0 s"

definition is_punct :: "nat \<Rightarrow> bool" where
  "is_punct c \<longleftrightarrow>
     c = 46 \<or> c = 44 \<or> c = 59 \<or> c = 58 \<or> c = 33 \<or> c = 63 \<or> c = 41 \<or> c = 93 \<or> c = 125 \<or> c = 62"

definition strip_trailing_punct :: "jstring \<Rightarrow> jstring" where
  "strip_trailing_punct u = rev (dropWhile is_punct (rev u))"

definition clean_link :: "jstring \<Rightarrow> bool" where
  "clean_link u \<longleftrightarrow> (case rev u of [] \<Rightarrow> True | c # cs \<Rightarrow> \<not> is_punct c)"

definition keep_first :: "'a list \<Rightarrow> 'a list" where
  "keep_first xs = rev (remdups (rev xs))"

definition found_links :: "jstring \<Rightarrow> jstring list" where
  "found_links content =
     map strip_trailing_punct (concat (map (\<lambda>p. all_matches p content) linkPatterns))"

definition link_list :: "jstring \<Rightarrow> jstring list option" where
  "link_list content =
     (if found_links content = [] then None else Some (keep_first (found_links content)))"

section \<open>What the normalizer is to return\<close>

text \<open>
  The segments that the loop of \<open>multi_part\<close> does not skip, the first plain one with
  a content and the last HTML one.
\<close>

definition processed :: "jstring \<Rightarrow> bool" where
  "processed part \<longleftrightarrow>
     \<not> (trim part = [] \<or> trim part = js ''--'') \<and> (is_plain part \<or> is_html part) \<and>
     0 \<le> indexOf part crlfcrlf"

definition segments :: "jstring \<Rightarrow> jstring \<Rightarrow> jstring list" where
  "segments boundary raw = filter processed (split raw (js ''--'' @ boundary))"

definition first_plain :: "jstring list \<Rightarrow> jstring option" where
  "first_plain segs = List.find (\<lambda>p. is_plain p \<and> part_content p \<noteq> []) segs"

definition last_html :: "jstring list \<Rightarrow> jstring option" where
  "last_html segs =
     (case filter is_html segs of [] \<Rightarrow> None | h # hs \<Rightarrow> Some (part_content (last (h # hs))))"

definition one_type_each :: "jstring list \<Rightarrow> bool" where
  "one_type_each segs = list_all (\<lambda>p. \<not> (is_plain p \<and> is_html p)) segs"

text \<open>
  The raw headers, in the words of the specification: the text before the first
  blank line. The source has no such notion; \<open>spec_headers\<close> only serves to state what
  the specification asks for. \<open>occurs_ci w s\<close>: the word occurs in the string, in any
  letter case.
\<close>

definition spec_headers :: "jstring \<Rightarrow> jstring" where
  "spec_headers raw =
     (if indexOf raw crlfcrlf < 0 then raw else take (nat (indexOf raw crlfcrlf)) raw)"

definition occurs_ci :: "jstring \<Rightarrow> jstring \<Rightarrow> bool" where
  "occurs_ci w s \<longleftrightarrow>
     list_ex (\<lambda>i. map to_upper (take (length w) (drop i s)) = map to_upper w) [0..<Suc (length s)]"






definition b64_char :: "nat \<Rightarrow> bool" where
  "b64_char c \<longleftrightarrow>
     (65 \<le> c \<and> c \<le> 90) \<or> (97 \<le> c \<and> c \<le> 122) \<or> (48 \<le> c \<and> c \<le> 57) \<or> c = 43 \<or> c = 47"

definition undecodable :: "jstring \<Rightarrow> bool" where
  "undecodable body \<longleftrightarrow> list_ex (\<lambda>c. \<not> js_space c \<and> c \<noteq> 61 \<and> \<not> b64_char c) body"

definition body_after_blank_line :: "jstring \<Rightarrow> jstring" where
  "body_after_blank_line raw =
     (if 0 < indexOf raw crlfcrlf then substring raw (indexOf raw crlfcrlf + 4) else raw)"

section \<open>Sample messages\<close>

definition crlf :: jstring where
  "crlf = [13, 10]"



definition msg_body_boundary :: jstring where
  "msg_body_boundary = js ''Subject: hi'' @ crlf @ crlf @ js ''see boundary=abc''"

definition msg_plain :: jstring where
  "msg_plain = js ''Subject: hi'' @ crlf @ crlf @ js ''hello''"



definition part_lf_only :: jstring where
  "part_lf_only = js ''Content-Type:text/plain'' @ [10, 10] @ js ''hello''"




definition msg_boundary_word_in_body :: jstring where
  "msg_boundary_word_in_body = js ''To: me'' @ crlf @ crlf @ js ''boundary=zz''"

definition msg_no_headers :: jstring where
  "msg_no_headers = js ''just text''"

definition msg_base64_with_body :: jstring where
  "msg_base64_with_body =
     js ''Content-Transfer-Encoding: base64'' @ crlf @ crlf @ js ''not base64!''"

section \<open>Evaluation\<close>

text \<open>The defining equations that evaluate the model on a concrete input.\<close>

lemmas rx_eval =
  js_def match_at_def to_upper_def to_lower_def js_digit_def js_space_def
  mk_regexp_def exec_def rx_match_def rx_test_def replace_first_def Let_def

lemmas extractor_eval =
  code_pat1_def code_pat2_def code_pat3_def code_pat4_def code_pat5_def
  code_pat6_def code_pat7_def code_pat8_def code_pat9_def code_pat10_def cn_label_def
  digits48_def colon_space_def cn_colon_space_def spaces0_def spaces1_def
  codePatterns_def linkPatterns_def initial_state_def extractData_def
  url_char_def url_head_def keyword_link_def link_pat1_def link_pat2_def link_pat3_def
  link_pat4_def link_pat5_def clean_url_def trailing_punct_def set_add_def content_of_def
  while_exec.simps

section \<open>Soundness of the matcher\<close>

lemma lit_match_sound:
  "lit_match ic w s = Some s' \<Longrightarrow> \<exists>pre. s = pre @ s' \<and> lit_match ic w pre = Some []"
proof (induction ic w s rule: lit_match.induct)
  case (1 ic s)
  then show ?case by simp
next
  case (2 ic a as)
  then show ?case by simp
next
  case (3 ic a as x xs)
  from "3.prems" have mem: "citem_mem ic (CChar a) x" and rest: "lit_match ic as xs = Some s'"
    by (auto split: if_splits)
  from "3.IH"[OF mem rest] obtain pre where "xs = pre @ s'" "lit_match ic as pre = Some []"
    by blast
  with mem have "x # xs = (x # pre) @ s' \<and> lit_match ic (a # as) (x # pre) = Some []"
    by simp
  then show ?case by blast
qed

lemma many_match_sound:
  "many_match g p mn mx k s = Some res \<Longrightarrow>
     \<exists>pre s'. s = pre @ s' \<and> k s' = Some res \<and> mn \<le> length pre \<and>
       (case mx of None \<Rightarrow> True | Some m \<Rightarrow> length pre \<le> m) \<and> list_all p pre"
proof (induction s arbitrary: mn mx)
  case Nil
  then have "mn = 0" "k [] = Some res" by (auto split: if_splits)
  then show ?case
    by (intro exI[of _ "[]"]) (simp split: option.splits)
next
  case (Cons x xs)
  let ?rec = "many_match g p (mn - 1) (map_option (\<lambda>m. m - 1) mx) k xs"
  have cases: "(p x \<and> mx \<noteq> Some 0 \<and> ?rec = Some res) \<or> (mn = 0 \<and> k (x # xs) = Some res)"
  proof (cases "p x \<and> mx \<noteq> Some 0")
    case False
    with Cons.prems show ?thesis by (auto split: if_splits)
  next
    case True
    show ?thesis
    proof (cases ?rec)
      case None
      with True Cons.prems show ?thesis by (cases g; cases "mn = 0"; simp split: option.splits)
    next
      case (Some r)
      with True Cons.prems show ?thesis by (cases g; cases "mn = 0"; simp split: option.splits)
    qed
  qed
  show ?case
  proof (rule disjE[OF cases])
    assume "mn = 0 \<and> k (x # xs) = Some res"
    then show ?thesis
      by (intro exI[of _ "[]"] exI[of _ "x # xs"]) (simp split: option.splits)
  next
    assume a: "p x \<and> mx \<noteq> Some 0 \<and> ?rec = Some res"
    then have r: "?rec = Some res" by simp
    from Cons.IH[OF r] obtain pre s' where
      h: "xs = pre @ s'" "k s' = Some res" "mn - 1 \<le> length pre"
         "(case map_option (\<lambda>m. m - 1) mx of None \<Rightarrow> True | Some m \<Rightarrow> length pre \<le> m)"
         "list_all p pre"
      by blast
    have "x # xs = (x # pre) @ s'" using h by simp
    moreover have "mn \<le> length (x # pre)" using h by simp
    moreover have "(case mx of None \<Rightarrow> True | Some m \<Rightarrow> length (x # pre) \<le> m)"
      using h a by (cases mx) auto
    moreover have "list_all p (x # pre)" using h a by simp
    ultimately show ?thesis using h(2)
      by (intro exI[of _ "x # pre"] exI[of _ s']) simp
  qed
qed

lemma rmatch_sound:
  "rmatch ic r k s c = Some res \<Longrightarrow>
     \<exists>pre s' c'. s = pre @ s' \<and> in_lang ic r pre \<and> k s' c' = Some res \<and> cap_res ic r c c'"
proof (induction r arbitrary: k s c res)
  case (Lit w)
  then obtain s' where l: "lit_match ic w s = Some s'" and k: "k s' c = Some res"
    by (auto split: option.splits)
  from lit_match_sound[OF l] obtain pre where "s = pre @ s'" "lit_match ic w pre = Some []"
    by blast
  with k have "s = pre @ s' \<and> in_lang ic (Lit w) pre \<and> k s' c = Some res \<and> cap_res ic (Lit w) c c"
    by (simp add: cap_res_def)
  then show ?case by blast
next
  case (One cl)
  then obtain x xs where s: "s = x # xs" and m: "cclass_mem ic cl x" and k: "k xs c = Some res"
    by (auto split: list.splits if_splits)
  have "s = [x] @ xs \<and> in_lang ic (One cl) [x] \<and> k xs c = Some res \<and> cap_res ic (One cl) c c"
    using s m k by (simp add: cap_res_def)
  then show ?case by blast
next
  case (Seq a b)
  from Seq.prems have "rmatch ic a (\<lambda>s' c'. rmatch ic b k s' c') s c = Some res" by simp
  from Seq.IH(1)[OF this] obtain p1 s1 c1 where
    a: "s = p1 @ s1" "in_lang ic a p1" "rmatch ic b k s1 c1 = Some res" "cap_res ic a c c1"
    by blast
  from Seq.IH(2)[OF a(3)] obtain p2 s2 c2 where
    b: "s1 = p2 @ s2" "in_lang ic b p2" "k s2 c2 = Some res" "cap_res ic b c1 c2"
    by blast
  have "s = (p1 @ p2) @ s2" using a(1) b(1) by simp
  moreover have "in_lang ic (Seq a b) (p1 @ p2)"
    using a(2) b(2) by (auto intro!: exI[of _ "length p1"])
  moreover have "cap_res ic (Seq a b) c c2"
    using a(4) b(4) unfolding cap_res_def by auto
  ultimately show ?case using b(3) by blast
next
  case (Alt a b)
  from Alt.prems have "rmatch ic a k s c = Some res \<or> rmatch ic b k s c = Some res"
    by (auto split: option.splits)
  then show ?case
  proof
    assume "rmatch ic a k s c = Some res"
    from Alt.IH(1)[OF this] obtain pre s' c' where
      h: "s = pre @ s'" "in_lang ic a pre" "k s' c' = Some res" "cap_res ic a c c'" by blast
    have "in_lang ic (Alt a b) pre" using h by simp
    moreover have "cap_res ic (Alt a b) c c'" using h(4) unfolding cap_res_def by auto
    ultimately show ?thesis using h(1,3) by blast
  next
    assume "rmatch ic b k s c = Some res"
    from Alt.IH(2)[OF this] obtain pre s' c' where
      h: "s = pre @ s'" "in_lang ic b pre" "k s' c' = Some res" "cap_res ic b c c'" by blast
    have "in_lang ic (Alt a b) pre" using h by simp
    moreover have "cap_res ic (Alt a b) c c'" using h(4) unfolding cap_res_def by auto
    ultimately show ?thesis using h(1,3) by blast
  qed
next
  case (Opt a)
  from Opt.prems have "rmatch ic a k s c = Some res \<or> k s c = Some res"
    by (auto split: option.splits)
  then show ?case
  proof
    assume "rmatch ic a k s c = Some res"
    from Opt.IH[OF this] obtain pre s' c' where
      h: "s = pre @ s'" "in_lang ic a pre" "k s' c' = Some res" "cap_res ic a c c'" by blast
    have "in_lang ic (Opt a) pre" using h by simp
    moreover have "cap_res ic (Opt a) c c'" using h(4) unfolding cap_res_def by auto
    ultimately show ?thesis using h(1,3) by blast
  next
    assume "k s c = Some res"
    then have "s = [] @ s \<and> in_lang ic (Opt a) [] \<and> k s c = Some res \<and> cap_res ic (Opt a) c c"
      by (simp add: cap_res_def)
    then show ?thesis by blast
  qed
next
  case (Many g mn mx cl)
  from Many.prems have "many_match g (cclass_mem ic cl) mn mx (\<lambda>s'. k s' c) s = Some res" by simp
  from many_match_sound[OF this] obtain pre s' where
    "s = pre @ s'" "k s' c = Some res" "mn \<le> length pre"
    "(case mx of None \<Rightarrow> True | Some m \<Rightarrow> length pre \<le> m)" "list_all (cclass_mem ic cl) pre"
    by blast
  then have "s = pre @ s' \<and> in_lang ic (Many g mn mx cl) pre \<and> k s' c = Some res \<and>
      cap_res ic (Many g mn mx cl) c c"
    by (simp add: cap_res_def)
  then show ?case by blast
next
  case (Cap a)
  from Cap.prems have
    "rmatch ic a (\<lambda>s' c'. k s' (Some (take (length s - length s') s))) s c = Some res" by simp
  from Cap.IH[OF this] obtain pre s' where
    h: "s = pre @ s'" "in_lang ic a pre" "k s' (Some (take (length s - length s') s)) = Some res"
    by blast
  have "take (length s - length s') s = pre" using h(1) by simp
  with h have "s = pre @ s' \<and> in_lang ic (Cap a) pre \<and> k s' (Some pre) = Some res \<and>
      cap_res ic (Cap a) c (Some pre)"
    by (simp add: cap_res_def)
  then show ?case by blast
next
  case EOI
  then have "s = [] @ s \<and> in_lang ic EOI [] \<and> k s c = Some res \<and> cap_res ic EOI c c"
    by (auto simp: cap_res_def split: if_splits)
  then show ?case by blast
qed

lemma match_at_sound:
  assumes "match_at ic r i s = Some m"
  shows "\<exists>pre s'. s = pre @ s' \<and> in_lang ic r pre \<and> m_index m = i \<and>
           m_end m = i + length pre \<and> m_text m = pre \<and> cap_res ic r None (m_group m)"
proof -
  from assms obtain s1 c1 where
    r: "rmatch ic r (\<lambda>s' c. Some (s', c)) s None = Some (s1, c1)" and
    m: "m = \<lparr>m_index = i, m_end = i + (length s - length s1),
                m_text = take (length s - length s1) s, m_group = c1\<rparr>"
    by (auto simp: match_at_def split: option.splits)
  from rmatch_sound[OF r] obtain pre s' c' where
    h: "s = pre @ s'" "in_lang ic r pre" "Some (s', c') = Some (s1, c1)" "cap_res ic r None c'"
    by blast
  have "length s - length s1 = length pre" "take (length s - length s1) s = pre"
    using h(1,3) by simp_all
  with m h show ?thesis
    by (intro exI[of _ pre] exI[of _ s']) simp
qed

lemma search_from_sound:
  "search_from ic r i s = Some m \<Longrightarrow>
     \<exists>skipped pre s'. s = skipped @ pre @ s' \<and> in_lang ic r pre \<and>
       m_index m = i + length skipped \<and> m_end m = m_index m + length pre \<and>
       m_text m = pre \<and> cap_res ic r None (m_group m)"
proof (induction s arbitrary: i)
  case Nil
  then have "match_at ic r i [] = Some m" by simp
  from match_at_sound[OF this] obtain pre s' where
    "[] = pre @ s'" "in_lang ic r pre" "m_index m = i" "m_end m = i + length pre"
    "m_text m = pre" "cap_res ic r None (m_group m)" by blast
  then show ?case
    by (intro exI[of _ "[]"] exI[of _ pre] exI[of _ s']) simp
next
  case (Cons x xs)
  show ?case
  proof (cases "match_at ic r i (x # xs)")
    case (Some m')
    with Cons.prems have "match_at ic r i (x # xs) = Some m" by simp
    from match_at_sound[OF this] obtain pre s' where
      "x # xs = pre @ s'" "in_lang ic r pre" "m_index m = i" "m_end m = i + length pre"
      "m_text m = pre" "cap_res ic r None (m_group m)" by blast
    then show ?thesis
      by (intro exI[of _ "[]"] exI[of _ pre] exI[of _ s']) simp
  next
    case None
    with Cons.prems have "search_from ic r (i + 1) xs = Some m" by simp
    from Cons.IH[OF this] obtain skipped pre s' where
      "xs = skipped @ pre @ s'" "in_lang ic r pre" "m_index m = i + 1 + length skipped"
      "m_end m = m_index m + length pre" "m_text m = pre" "cap_res ic r None (m_group m)"
      by blast
    then show ?thesis
      by (intro exI[of _ "x # skipped"] exI[of _ pre] exI[of _ s']) simp
  qed
qed

lemma exec_sound:
  assumes "exec p s = (Some m, p')"
  shows "\<exists>skipped pre s'. drop (lastIndex p) s = skipped @ pre @ s' \<and>
           in_lang (ignoreCase p) (source p) pre \<and>
           m_index m = lastIndex p + length skipped \<and> m_end m = m_index m + length pre \<and>
           m_text m = pre \<and> cap_res (ignoreCase p) (source p) None (m_group m) \<and>
           lastIndex p \<le> length s \<and> p' = p\<lparr>lastIndex := m_end m\<rparr>"
proof -
  from assms have le: "lastIndex p \<le> length s"
    and sf: "search_from (ignoreCase p) (source p) (lastIndex p) (drop (lastIndex p) s) = Some m"
    and p': "p' = p\<lparr>lastIndex := m_end m\<rparr>"
    by (auto simp: exec_def split: if_splits option.splits)
  from search_from_sound[OF sf] le p' show ?thesis by blast
qed

lemma exec_None_state: "exec p s = (None, p') \<Longrightarrow> p' = p\<lparr>lastIndex := 0\<rparr>"
  by (auto simp: exec_def split: if_splits option.splits)

section \<open>The loop over the code patterns\<close>

lemma cap_lang_alts [simp]: "\<not> cap_lang ic (alts ws) d"
  by (induction ws rule: alts.induct) simp_all

lemma must_cap_alts [simp]: "\<not> must_cap (alts ws)"
  by (induction ws rule: alts.induct) simp_all

lemma list_all_digit: "list_all (cclass_mem ic (Pos [CDigit])) d = list_all js_digit d"
  by (induction d) simp_all

lemma code_patterns_shape: "p \<in> set codePatterns \<Longrightarrow> code_shape (ignoreCase p) (source p)"
  by (auto simp: codePatterns_def mk_regexp_def code_shape_def code_pat1_def code_pat2_def
      code_pat3_def code_pat4_def code_pat5_def code_pat6_def code_pat7_def code_pat8_def
      code_pat9_def code_pat10_def cn_label_def digits48_def spaces0_def spaces1_def
      list_all_digit)

lemma same_sources_refl [simp]: "same_sources ps ps"
  by (simp add: same_sources_def)

lemma same_sources_Cons:
  "same_sources (p # ps) (q # qs) \<longleftrightarrow>
     source p = source q \<and> ignoreCase p = ignoreCase q \<and> same_sources ps qs"
  by (auto simp: same_sources_def)

lemma exec_keeps_pattern:
  "exec p s = (res, p') \<Longrightarrow> source p' = source p \<and> ignoreCase p' = ignoreCase p"
  by (auto simp: exec_def split: if_splits option.splits)

lemma code_loop_sources: "code_loop ps content = (res, ps') \<Longrightarrow> same_sources ps' ps"
proof (induction ps arbitrary: res ps')
  case Nil
  then show ?case by simp
next
  case (Cons p ps)
  obtain e p1 where e: "exec p content = (e, p1)" by (cases "exec p content")
  obtain r1 ps1 where r: "code_loop ps content = (r1, ps1)" by (cases "code_loop ps content")
  from Cons.IH[OF r] have ih: "same_sources ps1 ps" .
  from exec_keeps_pattern[OF e] have k: "source p1 = source p" "ignoreCase p1 = ignoreCase p"
    by simp_all
  from Cons.prems e r have "ps' = p1 # ps \<or> ps' = p1\<lparr>lastIndex := 0\<rparr> # ps1"
    by (auto split: option.splits if_splits)
  with ih k show ?case by (auto simp: same_sources_Cons)
qed

lemma code_loop_Some:
  "code_loop ps content = (Some g, ps') \<Longrightarrow>
     \<exists>p m p'. p \<in> set ps \<and> exec p content = (Some m, p') \<and> m_group m = Some g"
proof (induction ps arbitrary: ps')
  case Nil
  then show ?case by simp
next
  case (Cons p ps)
  obtain e p1 where e: "exec p content = (e, p1)" by (cases "exec p content")
  obtain r1 ps1 where r: "code_loop ps content = (r1, ps1)" by (cases "code_loop ps content")
  from Cons.prems e r have
    "(\<exists>m. e = Some m \<and> m_group m = Some g) \<or> r1 = Some g"
    by (auto split: option.splits if_splits)
  then show ?case
  proof
    assume "\<exists>m. e = Some m \<and> m_group m = Some g"
    with e show ?thesis by auto
  next
    assume "r1 = Some g"
    with r Cons.IH[of ps1] show ?thesis by auto
  qed
qed

lemma shape_group:
  assumes "code_shape ic r" and "cap_res ic r None c"
  shows "\<exists>g. c = Some g \<and> 4 \<le> length g \<and> length g \<le> 8 \<and> list_all js_digit g"
  using assms unfolding code_shape_def cap_res_def by blast

lemma same_sources_shape:
  assumes "same_sources ps codePatterns" and "p \<in> set ps"
  shows "code_shape (ignoreCase p) (source p)"
proof -
  from assms(2) obtain i where i: "i < length ps" "ps ! i = p" by (auto simp: in_set_conv_nth)
  from assms(1) have l: "length ps = length codePatterns"
    unfolding same_sources_def by (metis length_map)
  from assms(1) i l have "source p = source (codePatterns ! i)" "ignoreCase p = ignoreCase (codePatterns ! i)"
    unfolding same_sources_def by (metis nth_map)+
  moreover have "codePatterns ! i \<in> set codePatterns" using i l by simp
  from code_patterns_shape[OF this]
  have "code_shape (ignoreCase (codePatterns ! i)) (source (codePatterns ! i))" .
  ultimately show ?thesis by simp
qed

lemma code_loop_digits:
  assumes "same_sources ps codePatterns" and "code_loop ps content = (Some g, ps')"
  shows "4 \<le> length g \<and> length g \<le> 8 \<and> list_all js_digit g"
proof -
  from code_loop_Some[OF assms(2)] obtain p m p' where
    h: "p \<in> set ps" "exec p content = (Some m, p')" "m_group m = Some g" by blast
  from exec_sound[OF h(2)] have "cap_res (ignoreCase p) (source p) None (m_group m)" by blast
  from shape_group[OF same_sources_shape[OF assms(1) h(1)] this] h(3) show ?thesis by simp
qed

lemma exec_fresh:
  "lastIndex p = 0 \<Longrightarrow>
     exec p s = (case rx_match (ignoreCase p) (source p) s of
                   None \<Rightarrow> (None, p\<lparr>lastIndex := 0\<rparr>)
                 | Some m \<Rightarrow> (Some m, p\<lparr>lastIndex := m_end m\<rparr>))"
  by (simp add: exec_def rx_match_def)

lemma rx_match_shape:
  assumes "code_shape ic r" and "rx_match ic r s = Some m"
  shows "\<exists>g. m_group m = Some g \<and> g \<noteq> []"
proof -
  from assms(2) have "search_from ic r 0 s = Some m" by (simp add: rx_match_def)
  from search_from_sound[OF this] have "cap_res ic r None (m_group m)" by blast
  from shape_group[OF assms(1) this] show ?thesis by auto
qed

lemma code_loop_fresh:
  "(\<And>p. p \<in> set ps \<Longrightarrow> lastIndex p = 0 \<and> code_shape (ignoreCase p) (source p)) \<Longrightarrow>
     fst (code_loop ps content) = first_pattern_code ps content"
proof (induction ps)
  case Nil
  then show ?case by (simp add: first_pattern_code_def)
next
  case (Cons p ps)
  have p: "lastIndex p = 0" "code_shape (ignoreCase p) (source p)" using Cons.prems by simp_all
  have ih: "fst (code_loop ps content) = first_pattern_code ps content"
    using Cons.IH Cons.prems by simp
  show ?case
  proof (cases "rx_match (ignoreCase p) (source p) content")
    case None
    then have "fst (code_loop (p # ps) content) = fst (code_loop ps content)"
      by (simp add: exec_fresh[OF p(1)] split: prod.splits)
    moreover from None have "first_pattern_code (p # ps) content = first_pattern_code ps content"
      by (simp add: first_pattern_code_def rx_test_def)
    ultimately show ?thesis using ih by simp
  next
    case (Some m)
    from rx_match_shape[OF p(2) Some] obtain g where g: "m_group m = Some g" "g \<noteq> []" by blast
    from Some g have "fst (code_loop (p # ps) content) = Some g"
      by (simp add: exec_fresh[OF p(1)])
    moreover from Some g have "first_pattern_code (p # ps) content = Some g"
      by (simp add: first_pattern_code_def rx_test_def)
    ultimately show ?thesis by simp
  qed
qed

section \<open>The loop over the link patterns\<close>

lemma match_at_index:
  "match_at ic r i s = map_option (\<lambda>m. m\<lparr>m_index := i, m_end := i + m_end m\<rparr>) (match_at ic r 0 s)"
  by (simp add: match_at_def split: option.splits)

lemma match_at_None_index: "match_at ic r i s = None \<longleftrightarrow> match_at ic r 0 s = None"
  by (subst match_at_index) simp

lemma match_at_text_index:
  "match_at ic r i s = Some m \<Longrightarrow> \<exists>m'. match_at ic r 0 s = Some m' \<and> m_text m' = m_text m"
  by (subst (asm) match_at_index) auto

lemma matches_walk_skip: "matches_walk ic r n s = matches_walk ic r 0 (drop n s)"
proof (induction s arbitrary: n)
  case Nil
  then show ?case by simp
next
  case (Cons x xs)
  show ?case
  proof (cases n)
    case 0
    then show ?thesis by simp
  next
    case (Suc k)
    then show ?thesis using Cons.IH[of k] by simp
  qed
qed

lemma search_from_None_walk:
  "\<not> in_lang ic r [] \<Longrightarrow> search_from ic r i s = None \<Longrightarrow> matches_walk ic r 0 s = []"
proof (induction s arbitrary: i)
  case Nil
  then show ?case by simp
next
  case (Cons x xs)
  from Cons.prems(2) have n: "match_at ic r i (x # xs) = None" and
    rest: "search_from ic r (i + 1) xs = None"
    by (auto split: option.splits)
  from n have "match_at ic r 0 (x # xs) = None" using match_at_None_index by blast
  with Cons.IH[OF Cons.prems(1) rest] show ?case by simp
qed

lemma search_from_Some_walk:
  "\<not> in_lang ic r [] \<Longrightarrow> search_from ic r i s = Some m \<Longrightarrow>
     matches_walk ic r 0 s = m_text m # matches_walk ic r 0 (drop (m_end m - i) s)"
proof (induction s arbitrary: i)
  case Nil
  then have "match_at ic r i [] = Some m" by simp
  from match_at_sound[OF this] obtain pre s' where "[] = pre @ s'" "in_lang ic r pre" by blast
  with Nil.prems(1) show ?case by simp
next
  case (Cons x xs)
  show ?case
  proof (cases "match_at ic r i (x # xs)")
    case (Some m1)
    with Cons.prems(2) have m: "match_at ic r i (x # xs) = Some m" by simp
    from match_at_sound[OF m] obtain pre s' where
      h: "x # xs = pre @ s'" "in_lang ic r pre" "m_index m = i" "m_end m = i + length pre"
         "m_text m = pre" by blast
    from h(2) Cons.prems(1) have ne: "pre \<noteq> []" by auto
    from match_at_text_index[OF m] obtain m' where
      m': "match_at ic r 0 (x # xs) = Some m'" "m_text m' = m_text m" by blast
    have "matches_walk ic r 0 (x # xs) = m_text m # matches_walk ic r (length pre - 1) xs"
      using m' h(5) by simp
    also have "matches_walk ic r (length pre - 1) xs = matches_walk ic r 0 (drop (length pre - 1) xs)"
      by (rule matches_walk_skip)
    also have "drop (length pre - 1) xs = drop (m_end m - i) (x # xs)"
      using ne h(4) by (cases pre) simp_all
    finally show ?thesis .
  next
    case None
    with Cons.prems(2) have rest: "search_from ic r (i + 1) xs = Some m" by simp
    from search_from_sound[OF rest] have "i + 1 \<le> m_index m" "m_index m \<le> m_end m" by auto
    then have "m_end m - i = Suc (m_end m - (i + 1))" by arith
    then have d: "drop (m_end m - i) (x # xs) = drop (m_end m - (i + 1)) xs"
      by simp
    from None have "match_at ic r 0 (x # xs) = None" using match_at_None_index by blast
    then have "matches_walk ic r 0 (x # xs) = matches_walk ic r 0 xs" by simp
    with Cons.IH[OF Cons.prems(1) rest] d show ?thesis by simp
  qed
qed

lemma while_exec_total:
  assumes ne: "\<not> in_lang (ignoreCase p) (source p) []"
  shows "while_exec p content ls =
     Some (foldl set_add ls
             (map clean_url
                (matches_walk (ignoreCase p) (source p) 0 (drop (lastIndex p) content))),
           p\<lparr>lastIndex := 0\<rparr>)"
  using ne
proof (induction p content ls rule: while_exec.induct)
  case (1 p content ls)
  let ?ic = "ignoreCase p" and ?r = "source p"
  show ?case
  proof (cases "exec p content")
    case (Pair e p')
    show ?thesis
    proof (cases e)
      case None
      with Pair have p': "p' = p\<lparr>lastIndex := 0\<rparr>" using exec_None_state by blast
      have "matches_walk ?ic ?r 0 (drop (lastIndex p) content) = []"
      proof (cases "lastIndex p > length content")
        case True
        then show ?thesis by simp
      next
        case False
        with Pair None have "search_from ?ic ?r (lastIndex p) (drop (lastIndex p) content) = None"
          by (auto simp: exec_def split: option.splits)
        from search_from_None_walk[OF "1.prems" this] show ?thesis .
      qed
      with Pair None p' show ?thesis by (subst while_exec.simps) simp
    next
      case (Some m)
      with Pair have ex: "exec p content = (Some m, p')" by simp
      from exec_sound[OF ex] obtain skipped pre s' where
        h: "drop (lastIndex p) content = skipped @ pre @ s'" "in_lang ?ic ?r pre"
           "m_index m = lastIndex p + length skipped" "m_end m = m_index m + length pre"
           "m_text m = pre" "lastIndex p \<le> length content" "p' = p\<lparr>lastIndex := m_end m\<rparr>"
        by blast
      from h(2) "1.prems" have "pre \<noteq> []" by auto
      with h have adv: "lastIndex p < lastIndex p'" by simp
      from ex have sf: "search_from ?ic ?r (lastIndex p) (drop (lastIndex p) content) = Some m"
        by (auto simp: exec_def split: if_splits option.splits)
      have p'pat: "ignoreCase p' = ?ic" "source p' = ?r" "lastIndex p' = m_end m"
        using h(7) by simp_all
      have ih: "while_exec p' content (set_add ls (clean_url (m_text m))) =
          Some (foldl set_add (set_add ls (clean_url (m_text m)))
                  (map clean_url (matches_walk ?ic ?r 0 (drop (m_end m) content))),
                p'\<lparr>lastIndex := 0\<rparr>)"
        using "1.IH"[OF ex[symmetric] refl adv] "1.prems" p'pat by simp
      have "matches_walk ?ic ?r 0 (drop (lastIndex p) content) =
          m_text m # matches_walk ?ic ?r 0 (drop (m_end m - lastIndex p) (drop (lastIndex p) content))"
        by (rule search_from_Some_walk[OF "1.prems" sf])
      also have "drop (m_end m - lastIndex p) (drop (lastIndex p) content) = drop (m_end m) content"
      proof -
        have "m_end m - lastIndex p + lastIndex p = m_end m" using h(3,4) by arith
        then show ?thesis by (simp only: drop_drop)
      qed
      finally have w: "matches_walk ?ic ?r 0 (drop (lastIndex p) content) =
          m_text m # matches_walk ?ic ?r 0 (drop (m_end m) content)" .
      have "p'\<lparr>lastIndex := 0\<rparr> = p\<lparr>lastIndex := 0\<rparr>" using h(7) by simp
      with ih w ex adv show ?thesis by (subst while_exec.simps) simp
    qed
  qed
qed

lemma punct_mem: "cclass_mem False trailing_punct c = is_punct c"
  by (auto simp: trailing_punct_def is_punct_def)

lemma many_then_end:
  "many_match True P mn None (\<lambda>s'. if s' = [] then Some v else None) s =
     (if list_all P s \<and> mn \<le> length s then Some v else None)"
proof (induction s arbitrary: mn)
  case Nil
  then show ?case by simp
next
  case (Cons x xs)
  have "mn - 1 \<le> length xs \<longleftrightarrow> mn \<le> Suc (length xs)" by arith
  with Cons.IH[of "mn - 1"] show ?case by simp
qed

lemma match_at_punct:
  "match_at False (Seq (Many True (Suc 0) None trailing_punct) EOI) i s =
     (if list_all is_punct s \<and> s \<noteq> [] then
        Some \<lparr>m_index = i, m_end = i + length s, m_text = s, m_group = None\<rparr>
      else None)"
proof -
  have "rmatch False (Seq (Many True (Suc 0) None trailing_punct) EOI) (\<lambda>s' c. Some (s', c)) s None =
      many_match True (cclass_mem False trailing_punct) (Suc 0) None
        (\<lambda>s'. if s' = [] then Some ([], None) else None) s"
    by (simp cong: if_cong)
  also have "\<dots> = (if list_all (cclass_mem False trailing_punct) s \<and> Suc 0 \<le> length s
                      then Some ([], None) else None)"
    by (rule many_then_end)
  finally show ?thesis
    by (cases s) (simp_all add: match_at_def punct_mem[abs_def])
qed

lemma strip_Cons:
  "strip_trailing_punct (x # xs) =
     (if list_all is_punct (x # xs) then [] else x # strip_trailing_punct xs)"
proof (cases "list_all is_punct xs")
  case True
  then have "\<forall>y\<in>set (rev xs). is_punct y" by (simp add: list_all_iff)
  then have "dropWhile is_punct (rev xs @ [x]) = dropWhile is_punct [x]"
    by (simp add: dropWhile_append)
  moreover have "dropWhile is_punct (rev xs) = []" using True by (simp add: list_all_iff)
  ultimately show ?thesis using True by (simp add: strip_trailing_punct_def)
next
  case False
  then have "\<not> (\<forall>y\<in>set (rev xs). is_punct y)" by (simp add: list_all_iff)
  then have "dropWhile is_punct (rev xs @ [x]) = dropWhile is_punct (rev xs) @ [x]"
    by (simp add: dropWhile_append)
  with False show ?thesis by (simp add: strip_trailing_punct_def)
qed

lemma strip_Nil [simp]: "strip_trailing_punct [] = []"
  by (simp add: strip_trailing_punct_def)

lemma strip_prefix: "take (length (strip_trailing_punct u)) u = strip_trailing_punct u"
proof -
  have "rev (dropWhile is_punct (rev u)) @ rev (takeWhile is_punct (rev u)) =
      rev (takeWhile is_punct (rev u) @ dropWhile is_punct (rev u))"
    by (simp only: rev_append)
  also have "\<dots> = u" by (simp only: takeWhile_dropWhile_id rev_rev_ident)
  finally have "u = strip_trailing_punct u @ rev (takeWhile is_punct (rev u))"
    by (simp add: strip_trailing_punct_def)
  then show ?thesis by (metis append_eq_conv_conj)
qed

lemma search_punct:
  "(case search_from False (Seq (Many True 1 None trailing_punct) EOI) i s of
      None \<Rightarrow> strip_trailing_punct s = s
    | Some m \<Rightarrow> m_index m = i + length (strip_trailing_punct s) \<and> m_end m = i + length s)"
proof (induction s arbitrary: i)
  case Nil
  then show ?case by (simp add: match_at_punct)
next
  case (Cons x xs)
  show ?case
  proof (cases "list_all is_punct (x # xs)")
    case True
    then show ?thesis by (simp add: match_at_punct strip_Cons)
  next
    case False
    then have "match_at False (Seq (Many True (Suc 0) None trailing_punct) EOI) i (x # xs) = None"
      by (simp only: match_at_punct if_False simp_thms)
    then have "search_from False (Seq (Many True 1 None trailing_punct) EOI) i (x # xs) =
        search_from False (Seq (Many True 1 None trailing_punct) EOI) (i + 1) xs"
      by simp
    with Cons.IH[of "i + 1"] False show ?thesis
      by (simp add: strip_Cons split: option.splits)
  qed
qed

lemma clean_url_strip: "clean_url u = strip_trailing_punct u"
proof (cases "search_from False (Seq (Many True 1 None trailing_punct) EOI) 0 u")
  case None
  with search_punct[where i=0 and s=u] show ?thesis
    by (simp add: clean_url_def replace_first_def rx_match_def)
next
  case (Some m)
  with search_punct[where i=0 and s=u] have "m_index m = length (strip_trailing_punct u)" "m_end m = length u"
    by simp_all
  with Some show ?thesis
    by (simp add: clean_url_def replace_first_def rx_match_def strip_prefix)
qed

lemma strip_no_trailing_punct:
  "strip_trailing_punct u = [] \<or> \<not> is_punct (last (strip_trailing_punct u))"
proof (cases "dropWhile is_punct (rev u)")
  case Nil
  then show ?thesis by (simp add: strip_trailing_punct_def)
next
  case (Cons y ys)
  then have "\<not> is_punct (hd (dropWhile is_punct (rev u)))"
    by (metis hd_dropWhile list.distinct(1))
  with Cons show ?thesis by (simp add: strip_trailing_punct_def)
qed

lemma clean_link_strip: "clean_link (strip_trailing_punct u)"
proof (cases "dropWhile is_punct (rev u)")
  case Nil
  then show ?thesis by (simp add: clean_link_def strip_trailing_punct_def del: dropWhile_eq_Nil_conv)
next
  case (Cons y ys)
  then have "\<not> is_punct (hd (dropWhile is_punct (rev u)))"
    by (metis hd_dropWhile list.distinct(1))
  with Cons show ?thesis by (simp add: clean_link_def strip_trailing_punct_def)
qed

lemma keep_first_snoc:
  "keep_first (xs @ [x]) = (if x \<in> set xs then keep_first xs else keep_first xs @ [x])"
  by (simp add: keep_first_def)

lemma set_keep_first [simp]: "set (keep_first xs) = set xs"
  by (simp add: keep_first_def)

lemma distinct_keep_first [simp]: "distinct (keep_first xs)"
  by (simp add: keep_first_def)

lemma foldl_set_add: "foldl set_add [] xs = keep_first xs"
proof (induction xs rule: rev_induct)
  case Nil
  then show ?case by (simp add: keep_first_def)
next
  case (snoc x xs)
  then show ?case by (simp add: keep_first_snoc set_add_def)
qed

lemma link_loop_total:
  "(\<And>p. p \<in> set ps \<Longrightarrow> \<not> in_lang (ignoreCase p) (source p) []) \<Longrightarrow>
     link_loop ps content ls =
       Some (foldl set_add ls
               (map clean_url
                  (concat (map (\<lambda>p. matches_walk (ignoreCase p) (source p) 0
                                       (drop (lastIndex p) content)) ps))),
             map (\<lambda>p. p\<lparr>lastIndex := 0\<rparr>) ps)"
proof (induction ps arbitrary: ls)
  case Nil
  then show ?case by simp
next
  case (Cons p ps)
  have ne: "\<not> in_lang (ignoreCase p) (source p) []" using Cons.prems by simp
  have ih: "\<And>ls. link_loop ps content ls =
       Some (foldl set_add ls
               (map clean_url
                  (concat (map (\<lambda>p. matches_walk (ignoreCase p) (source p) 0
                                       (drop (lastIndex p) content)) ps))),
             map (\<lambda>p. p\<lparr>lastIndex := 0\<rparr>) ps)"
    using Cons.IH Cons.prems by simp
  show ?case
    by (simp add: while_exec_total[OF ne] ih del: while_exec.simps)
qed

lemma link_patterns_nonempty:
  "p \<in> set linkPatterns \<Longrightarrow> \<not> in_lang (ignoreCase p) (source p) []"
  by (auto simp: linkPatterns_def mk_regexp_def link_pat1_def link_pat2_def link_pat3_def
      link_pat4_def link_pat5_def keyword_link_def url_head_def js_def)

lemma link_loop_fresh:
  "link_loop linkPatterns content [] = Some (keep_first (found_links content), linkPatterns)"
proof -
  have z: "map (\<lambda>p. p\<lparr>lastIndex := 0\<rparr>) linkPatterns = linkPatterns"
    by (simp add: linkPatterns_def mk_regexp_def)
  have d: "map (\<lambda>p. matches_walk (ignoreCase p) (source p) 0 (drop (lastIndex p) content)) linkPatterns
      = map (\<lambda>p. all_matches p content) linkPatterns"
    by (simp add: linkPatterns_def mk_regexp_def all_matches_def)
  have c: "map clean_url = map strip_trailing_punct"
    by (rule arg_cong[of _ _ map]) (rule ext, rule clean_url_strip)
  show ?thesis
    by (simp only: link_loop_total[OF link_patterns_nonempty] z d c foldl_set_add found_links_def)
qed

lemma found_links_clean: "list_all clean_link (found_links content)"
  by (simp add: found_links_def list_all_iff clean_link_strip)

lemmas link_eval = found_links_def link_list_def all_matches_def keep_first_def
  strip_trailing_punct_def is_punct_def

section \<open>One call of extractData\<close>

lemma same_sources_member:
  assumes "same_sources ps qs" and "p \<in> set ps"
  shows "\<exists>q. q \<in> set qs \<and> source p = source q \<and> ignoreCase p = ignoreCase q"
proof -
  from assms(2) obtain i where i: "i < length ps" "ps ! i = p" by (auto simp: in_set_conv_nth)
  from assms(1) have l: "length ps = length qs"
    unfolding same_sources_def by (metis length_map)
  from assms(1) i l have "source p = source (qs ! i)" "ignoreCase p = ignoreCase (qs ! i)"
    unfolding same_sources_def by (metis nth_map)+
  moreover have "qs ! i \<in> set qs" using i l by simp
  ultimately show ?thesis by blast
qed

lemma same_sources_reset: "same_sources (map (\<lambda>p. p\<lparr>lastIndex := 0\<rparr>) ps) ps"
  by (simp add: same_sources_def comp_def)

lemma same_sources_trans: "same_sources ps qs \<Longrightarrow> same_sources qs rs \<Longrightarrow> same_sources ps rs"
  by (simp add: same_sources_def)

lemma extractData_loaded:
  assumes "loaded st"
  shows "\<exists>ls lrx. link_loop (link_rx st) (content_of text html) [] = Some (ls, lrx) \<and>
           same_sources lrx linkPatterns \<and>
           extractData st text html =
             Some (\<lparr>code = fst (code_loop (code_rx st) (content_of text html)),
                    links = (if ls \<noteq> [] then Some ls else None)\<rparr>,
                   \<lparr>code_rx = snd (code_loop (code_rx st) (content_of text html)), link_rx = lrx\<rparr>)"
proof -
  have ne: "\<And>p. p \<in> set (link_rx st) \<Longrightarrow> \<not> in_lang (ignoreCase p) (source p) []"
  proof -
    fix p assume "p \<in> set (link_rx st)"
    with assms obtain q where "q \<in> set linkPatterns" "source p = source q" "ignoreCase p = ignoreCase q"
      unfolding loaded_def using same_sources_member by blast
    with link_patterns_nonempty[of q] show "\<not> in_lang (ignoreCase p) (source p) []" by simp
  qed
  note ll = link_loop_total[OF ne, of "link_rx st" "content_of text html" "[]"]
  have "same_sources (map (\<lambda>p. p\<lparr>lastIndex := 0\<rparr>) (link_rx st)) linkPatterns"
    using same_sources_trans[OF same_sources_reset] assms unfolding loaded_def by blast
  with ll show ?thesis
    by (simp add: extractData_def Let_def split: prod.splits)
qed

lemma loaded_initial: "loaded initial_state"
  by (simp add: loaded_def initial_state_def)

lemma fresh_initial: "fresh_code_patterns initial_state"
  by (simp add: fresh_code_patterns_def initial_state_def codePatterns_def mk_regexp_def)

text \<open>
  In a state whose code patterns are at \<^verbatim>\<open>lastIndex = 0\<close> the code is the group of
  the first pattern, in the order of the array, that matches anywhere in the content.
\<close>

lemma fresh_state_first_pattern:
  assumes "loaded st" and "fresh_code_patterns st"
  shows "\<exists>d st'. extractData st text html = Some (d, st') \<and>
           code d = first_pattern_code (code_rx st) (content_of text html) \<and>
           (case code d of
              None \<Rightarrow> True
            | Some c \<Rightarrow> 4 \<le> length c \<and> length c \<le> 8 \<and> list_all js_digit c) \<and>
           (if list_ex (\<lambda>p. rx_test (ignoreCase p) (source p) (content_of text html)) (code_rx st)
            then code d \<noteq> None else code d = None)"
proof -
  let ?content = "content_of text html"
  from extractData_loaded[OF assms(1), of "text" "html"] obtain ls lrx where
    h: "extractData st text html =
          Some (\<lparr>code = fst (code_loop (code_rx st) ?content),
                 links = (if ls \<noteq> [] then Some ls else None)\<rparr>,
                \<lparr>code_rx = snd (code_loop (code_rx st) ?content), link_rx = lrx\<rparr>)"
    by blast
  have src: "same_sources (code_rx st) codePatterns" using assms(1) by (simp add: loaded_def)
  have pre: "\<And>p. p \<in> set (code_rx st) \<Longrightarrow>
      lastIndex p = 0 \<and> code_shape (ignoreCase p) (source p)"
    using assms(2) same_sources_shape[OF src]
    by (simp add: fresh_code_patterns_def list_all_iff)
  have fp: "fst (code_loop (code_rx st) ?content) = first_pattern_code (code_rx st) ?content"
    by (rule code_loop_fresh[OF pre])
  obtain res crx where cl: "code_loop (code_rx st) ?content = (res, crx)"
    by (cases "code_loop (code_rx st) ?content")
  have dg: "case res of None \<Rightarrow> True
            | Some c \<Rightarrow> 4 \<le> length c \<and> length c \<le> 8 \<and> list_all js_digit c"
  proof (cases res)
    case None
    then show ?thesis by simp
  next
    case (Some g)
    with code_loop_digits[OF src] cl show ?thesis by simp
  qed
  have ex: "if list_ex (\<lambda>p. rx_test (ignoreCase p) (source p) ?content) (code_rx st)
            then first_pattern_code (code_rx st) ?content \<noteq> None
            else first_pattern_code (code_rx st) ?content = None"
  proof (cases "List.find (\<lambda>p. rx_test (ignoreCase p) (source p) ?content) (code_rx st)")
    case None
    then have "\<not> list_ex (\<lambda>p. rx_test (ignoreCase p) (source p) ?content) (code_rx st)"
      by (simp add: find_None_iff list_ex_iff)
    with None show ?thesis by (simp add: first_pattern_code_def)
  next
    case (Some p)
    then have p: "p \<in> set (code_rx st)" "rx_test (ignoreCase p) (source p) ?content"
      by (auto simp: find_Some_iff)
    then obtain m where m: "rx_match (ignoreCase p) (source p) ?content = Some m"
      by (auto simp: rx_test_def)
    from rx_match_shape[OF _ m] pre[OF p(1)] obtain g where "m_group m = Some g" by blast
    with Some m have "first_pattern_code (code_rx st) ?content = Some g"
      by (simp add: first_pattern_code_def)
    moreover have "list_ex (\<lambda>p. rx_test (ignoreCase p) (source p) ?content) (code_rx st)"
      using p by (auto simp: list_ex_iff)
    ultimately show ?thesis by simp
  qed
  from h fp cl dg ex show ?thesis by simp
qed

section \<open>The loop over the parts of a message\<close>









lemma index_from_neg:
  "index_from w i s < 0 \<longleftrightarrow> \<not> (\<exists>pre post. s = pre @ w @ post)"
proof (induction s arbitrary: i)
  case Nil
  then show ?case by auto
next
  case (Cons x xs)
  show ?case
  proof (cases "take (length w) (x # xs) = w")
    case True
    then have "x # xs = [] @ w @ drop (length w) (x # xs)"
      by (metis append_Nil append_take_drop_id)
    then have "\<exists>pre post. x # xs = pre @ w @ post" by blast
    with True show ?thesis by simp
  next
    case False
    have "(\<exists>pre post. x # xs = pre @ w @ post) \<longleftrightarrow> (\<exists>pre post. xs = pre @ w @ post)"
    proof
      assume "\<exists>pre post. x # xs = pre @ w @ post"
      then obtain pre post where e: "x # xs = pre @ w @ post" by blast
      show "\<exists>pre post. xs = pre @ w @ post"
      proof (cases pre)
        case Nil
        with e have "take (length w) (x # xs) = w" by simp
        with False show ?thesis by simp
      next
        case (Cons y ys)
        with e have "xs = ys @ w @ post" by simp
        then show ?thesis by blast
      qed
    next
      assume "\<exists>pre post. xs = pre @ w @ post"
      then obtain pre post where "xs = pre @ w @ post" by blast
      then have "x # xs = (x # pre) @ w @ post" by simp
      then show "\<exists>pre post. x # xs = pre @ w @ post" by blast
    qed
    with False Cons.IH[of "i + 1"] show ?thesis by simp
  qed
qed

lemma indexOf_neg: "indexOf s w < 0 \<longleftrightarrow> \<not> (\<exists>pre post. s = pre @ w @ post)"
  by (simp add: indexOf_def index_from_neg)

lemmas mime_eval =
  is_plain_def is_html_def is_qp_def is_base64_def header_rx_def boundary_rx_def boundary_of_def
  crlfcrlf_def split_def indexOf_def substring_def trim_def part_step_def part_content_def
  transfer_decode_def multi_part_def single_part_def parseMimeContent_def htmlToText_def
  block_rx_def any_char_def replace_all_def decodeQuotedPrintable_def hex_digit_def hex_val_def
  parseInt16_def fromCharCode_def atob_def strip_padding_def ascii_ws_def b64_value_def
  processed_def segments_def first_plain_def last_html_def one_type_each_def
  spec_headers_def occurs_ci_def crlf_def







section \<open>Where the headers are looked for\<close>

lemma lit_match_ci:
  "lit_match True w v = Some [] \<Longrightarrow> map to_upper v = map to_upper w"
proof (induction "True" w v rule: lit_match.induct)
  case (1 s)
  then show ?case by simp
next
  case (2 a as)
  then show ?case by simp
next
  case (3 a as x xs)
  then show ?case by (auto split: if_splits)
qed

lemma boundary_needs_text:
  assumes "boundary_of raw \<noteq> None"
  shows "occurs_ci (js ''boundary='') raw"
proof -
  let ?w = "js ''boundary=''"
  from assms obtain m where "rx_match True boundary_rx raw = Some m"
    by (auto simp: boundary_of_def split: option.splits)
  then have "search_from True boundary_rx 0 raw = Some m" by (simp add: rx_match_def)
  from search_from_sound[OF this] obtain skipped pre s' where
    h: "raw = skipped @ pre @ s'" "in_lang True boundary_rx pre" by blast
  from h(2) obtain n where n: "n \<le> length pre" "lit_match True ?w (take n pre) = Some []"
    by (auto simp: boundary_rx_def)
  from lit_match_ci[OF n(2)] have u: "map to_upper (take n pre) = map to_upper ?w" .
  then have "length (take n pre) = length ?w" by (metis length_map)
  with n(1) have len: "n = length ?w" by simp
  have "take (length ?w) (drop (length skipped) raw) = take n pre"
    using h(1) n(1) len by simp
  with u have "map to_upper (take (length ?w) (drop (length skipped) raw)) = map to_upper ?w"
    by simp
  moreover have "length skipped \<in> set [0..<Suc (length raw)]" using h(1) by simp
  ultimately show ?thesis unfolding occurs_ci_def list_ex_iff by blast
qed

lemma lit_occurs:
  assumes "lit_match True w v = Some []" and "s = x @ v @ y"
  shows "occurs_ci w s"
proof -
  from lit_match_ci[OF assms(1)] have u: "map to_upper v = map to_upper w" .
  then have "length v = length w" by (metis length_map)
  with assms(2) have "take (length w) (drop (length x) s) = v" by simp
  with u have "map to_upper (take (length w) (drop (length x) s)) = map to_upper w" by simp
  moreover have "length x \<in> set [0..<Suc (length s)]" using assms(2) by simp
  ultimately show ?thesis unfolding occurs_ci_def list_ex_iff by blast
qed

lemma header_rx_occurs:
  assumes "rx_test True (header_rx name val) s"
  shows "occurs_ci (js (name @ '':'')) s \<and> occurs_ci (js val) s"
proof -
  from assms obtain m where "search_from True (header_rx name val) 0 s = Some m"
    by (auto simp: rx_test_def rx_match_def)
  from search_from_sound[OF this] obtain skipped pre s' where
    h: "s = skipped @ pre @ s'" "in_lang True (header_rx name val) pre" by blast
  from h(2) obtain n k where
    a: "lit_match True (js (name @ '':'')) (take n pre) = Some []" and
    b: "lit_match True (js val) (drop k (drop n pre)) = Some []"
    by (auto simp: header_rx_def)
  have "s = skipped @ take n pre @ (drop n pre @ s')" using h(1) by simp
  from lit_occurs[OF a this] have 1: "occurs_ci (js (name @ '':'')) s" .
  have "pre = take n pre @ take k (drop n pre) @ drop k (drop n pre)"
    by (metis append_take_drop_id)
  then have "skipped @ pre @ s' =
      (skipped @ take n pre @ take k (drop n pre)) @ drop k (drop n pre) @ s'"
    by (metis append.assoc)
  with h(1) have "s = (skipped @ take n pre @ take k (drop n pre)) @ drop k (drop n pre) @ s'"
    by simp
  from lit_occurs[OF b this] have 2: "occurs_ci (js val) s" .
  from 1 2 show ?thesis by simp
qed



lemma strip_ws_walk:
  "replace_walk False (One (Pos [CSpace])) (\<lambda>m. []) i 0 s = filter (\<lambda>c. \<not> js_space c) s"
  by (induction s arbitrary: i) (simp_all add: match_at_def)

lemma strip_ws: "replace_all False (One (Pos [CSpace])) (\<lambda>m. []) s = filter (\<lambda>c. \<not> js_space c) s"
  by (simp add: replace_all_def strip_ws_walk)

lemma strip_padding_keeps:
  assumes "c \<in> set d" and "c \<noteq> 61"
  shows "c \<in> set (strip_padding d)"
proof -
  have k: "\<And>xs. xs \<noteq> [] \<Longrightarrow> last xs = 61 \<Longrightarrow> c \<in> set xs \<Longrightarrow> c \<in> set (butlast xs)"
  proof -
    fix xs :: jstring
    assume "xs \<noteq> []" "last xs = 61" "c \<in> set xs"
    then have "xs = butlast xs @ [61]" by (metis append_butlast_last_id)
    with \<open>c \<in> set xs\<close> assms(2) show "c \<in> set (butlast xs)"
      by (metis Un_iff empty_iff empty_set set_ConsD set_append)
  qed
  show ?thesis
    using assms(1) k[of d] k[of "butlast d"] by (auto simp: strip_padding_def)
qed

lemma atob_undecodable:
  assumes "undecodable body"
  shows "atob (filter (\<lambda>c. \<not> js_space c) body) = Inl InvalidCharacterError"
proof -
  from assms obtain c where c: "c \<in> set body" "\<not> js_space c" "c \<noteq> 61" "\<not> b64_char c"
    by (auto simp: undecodable_def list_ex_iff)
  from c(2) have "\<not> ascii_ws c" by (auto simp: ascii_ws_def js_space_def)
  with c(1,2) have "c \<in> set (filter (\<lambda>c. \<not> ascii_ws c) (filter (\<lambda>c. \<not> js_space c) body))"
    by simp
  from strip_padding_keeps[OF this c(3)]
  have m: "c \<in> set (strip_padding (filter (\<lambda>c. \<not> ascii_ws c) (filter (\<lambda>c. \<not> js_space c) body)))" .
  from c(4) have "b64_value c = None" by (auto simp: b64_value_def b64_char_def)
  with m have "list_ex (\<lambda>c. b64_value c = None)
      (strip_padding (filter (\<lambda>c. \<not> ascii_ws c) (filter (\<lambda>c. \<not> js_space c) body)))"
    by (auto simp: list_ex_iff)
  then show ?thesis by (simp add: atob_def Let_def)
qed

lemma transfer_decode_undecodable:
  "is_base64 scope \<Longrightarrow> \<not> is_qp scope \<Longrightarrow> undecodable body \<Longrightarrow>
     transfer_decode scope body = body"
  by (simp add: transfer_decode_def strip_ws atob_undecodable)

lemma no_header_no_test:
  "\<not> occurs_ci (js (name @ '':'')) s \<Longrightarrow> \<not> rx_test True (header_rx name val) s"
  using header_rx_occurs by blast

lemma transfer_decode_plain:
  "\<not> occurs_ci (js ''content-transfer-encoding:'') scope \<Longrightarrow> transfer_decode scope body = body"
  using no_header_no_test[of "''content-transfer-encoding''" scope]
  by (simp add: transfer_decode_def is_qp_def is_base64_def)

lemma no_content_type_not_html: "\<not> occurs_ci (js ''content-type:'') s \<Longrightarrow> \<not> is_html s"
  using no_header_no_test[of "''content-type''" s] by (simp add: is_html_def)

lemma single_part_body:
  "single_part raw =
     (if is_html raw
      then \<lparr>body_text = htmlToText (transfer_decode raw (body_after_blank_line raw)),
            body_html = Some (transfer_decode raw (body_after_blank_line raw))\<rparr>
      else \<lparr>body_text = transfer_decode raw (body_after_blank_line raw), body_html = None\<rparr>)"
  by (simp add: single_part_def body_after_blank_line_def Let_def)

lemma no_separator_body:
  "\<forall>pre post. raw \<noteq> pre @ crlfcrlf @ post \<Longrightarrow> body_after_blank_line raw = raw"
proof -
  assume "\<forall>pre post. raw \<noteq> pre @ crlfcrlf @ post"
  then have "indexOf raw crlfcrlf < 0" by (simp add: indexOf_neg)
  then show ?thesis by (simp add: body_after_blank_line_def)
qed

lemma no_boundary_single:
  "\<not> occurs_ci (js ''boundary='') raw \<Longrightarrow> parseMimeContent raw = Inr (single_part raw)"
proof -
  assume "\<not> occurs_ci (js ''boundary='') raw"
  then have "boundary_of raw = None" using boundary_needs_text by blast
  then show ?thesis by (simp add: parseMimeContent_def)
qed

section \<open>The claims about the signal extractor\<close>

text \<open>
  C1. The claim: two calls of \<open>extractData\<close> with the same arguments return the same
  result. The code does not do that. The loop over \<^verbatim>\<open>codePatterns\<close> leaves by
  \<^verbatim>\<open>break\<close> before \<^verbatim>\<open>pattern.lastIndex = 0\<close>, so the pattern that matched keeps
  the end of its match as \<^verbatim>\<open>lastIndex\<close>, and the next call searches from there.
  For the text \<^verbatim>\<open>code: 1234\<close> on a freshly loaded module the first call returns the
  code \<^verbatim>\<open>1234\<close> and the second call returns no code.
\<close>

theorem C1_second_call_differs:
  "call_twice initial_state (js ''code: 1234'') None =
     Some (\<lparr>code = Some (js ''1234''), links = None\<rparr>, \<lparr>code = None, links = None\<rparr>)"
  by (simp add: call_twice_def rx_eval extractor_eval)

text \<open>
  C2. The claim: the Chinese labelled form and the English form
  \<^verbatim>\<open>Your code is 123456\<close> both give the code \<^verbatim>\<open>123456\<close>. On a freshly loaded module
  the Chinese form does; the English form gives no code, because every English
  pattern wants the digits directly after the keyword and its separators, and here
  the word \<^verbatim>\<open>is\<close> stands between them.
\<close>

theorem C2_english_form_not_extracted:
  "map_option fst (extractData initial_state
      ([24744, 30340, 39564, 35777, 30721, 65306] @ js ''123456'') None) =
     Some \<lparr>code = Some (js ''123456''), links = None\<rparr> \<and>
   map_option fst (extractData initial_state (js ''Your code is 123456'') None) =
     Some \<lparr>code = None, links = None\<rparr>"
  by (simp add: rx_eval extractor_eval)

text \<open>
  C3, as amended. The claim: \<^verbatim>\<open>Error code: 123\<close> gives no code, \<^verbatim>\<open>Code: 12345678\<close>
  gives \<^verbatim>\<open>12345678\<close>, and a run of nine or more digits next to the keyword gives no
  match at all. The first two hold. The third does not: the patterns end with the
  group \<^verbatim>\<open>(\d{4,8})\<close> and nothing after it, so the first eight digits of a longer
  run match. What holds for every input and every state of the module is that a
  returned code has 4 to 8 code units, all of them digits: a longer run is never
  returned whole.
\<close>

theorem C3_code_has_four_to_eight_digits:
  assumes "loaded st"
  shows "(\<exists>d st'. extractData st text html = Some (d, st') \<and> loaded st' \<and>
            (case code d of
               None \<Rightarrow> True
             | Some c \<Rightarrow> 4 \<le> length c \<and> length c \<le> 8 \<and> list_all js_digit c)) \<and>
         map_option (code \<circ> fst) (extractData initial_state (js ''Error code: 123'') None) =
           Some None \<and>
         map_option (code \<circ> fst) (extractData initial_state (js ''Code: 12345678'') None) =
           Some (Some (js ''12345678''))"
proof (intro conjI)
  let ?content = "content_of text html"
  from extractData_loaded[OF assms, of "text" "html"] obtain ls lrx where
    h: "same_sources lrx linkPatterns"
       "extractData st text html =
          Some (\<lparr>code = fst (code_loop (code_rx st) ?content),
                 links = (if ls \<noteq> [] then Some ls else None)\<rparr>,
                \<lparr>code_rx = snd (code_loop (code_rx st) ?content), link_rx = lrx\<rparr>)"
    by blast
  obtain res crx where cl: "code_loop (code_rx st) ?content = (res, crx)"
    by (cases "code_loop (code_rx st) ?content")
  have src: "same_sources (code_rx st) codePatterns" using assms by (simp add: loaded_def)
  have "same_sources crx codePatterns"
    using same_sources_trans[OF code_loop_sources[OF cl] src] .
  with h(1) have ld: "loaded \<lparr>code_rx = crx, link_rx = lrx\<rparr>" by (simp add: loaded_def)
  have dg: "case res of None \<Rightarrow> True
            | Some c \<Rightarrow> 4 \<le> length c \<and> length c \<le> 8 \<and> list_all js_digit c"
  proof (cases res)
    case None
    then show ?thesis by simp
  next
    case (Some g)
    with code_loop_digits[OF src] cl show ?thesis by simp
  qed
  from h(2) cl ld dg
  show "\<exists>d st'. extractData st text html = Some (d, st') \<and> loaded st' \<and>
            (case code d of
               None \<Rightarrow> True
             | Some c \<Rightarrow> 4 \<le> length c \<and> length c \<le> 8 \<and> list_all js_digit c)"
    by simp
next
  show "map_option (code \<circ> fst) (extractData initial_state (js ''Error code: 123'') None) =
           Some None"
    by (simp add: rx_eval extractor_eval)
next
  show "map_option (code \<circ> fst) (extractData initial_state (js ''Code: 12345678'') None) =
           Some (Some (js ''12345678''))"
    by (simp add: rx_eval extractor_eval)
qed

text \<open>
  C3, the claim as stated fails: \<^verbatim>\<open>Code: 123456789\<close> gives the code \<^verbatim>\<open>12345678\<close>.
\<close>

theorem C3_nine_digits_truncated:
  "map_option (code \<circ> fst) (extractData initial_state (js ''Code: 123456789'') None) =
     Some (Some (js ''12345678''))"
  by (simp add: rx_eval extractor_eval)

theorem C3_witness:
  "loaded initial_state \<and>
   (\<exists>d st'. extractData initial_state (js ''Code: 123456789'') None = Some (d, st') \<and>
      loaded st' \<and> code d = Some (js ''12345678'') \<and> length (js ''12345678'') \<le> 8)"
proof -
  have l: "loaded initial_state" by (rule loaded_initial)
  from C3_code_has_four_to_eight_digits[OF l, of "js ''Code: 123456789''" None]
  obtain d st' where h: "extractData initial_state (js ''Code: 123456789'') None = Some (d, st')"
    "loaded st'" by blast
  have "map_option (code \<circ> fst) (extractData initial_state (js ''Code: 123456789'') None) =
     Some (Some (js ''12345678''))"
    by (simp add: rx_eval extractor_eval)
  with h have "code d = Some (js ''12345678'')" by simp
  with l h show ?thesis by (simp add: js_def)
qed

text \<open>
  C4. The claim: the patterns are tried in a fixed order and the first one that
  matches anywhere in the content gives the code; the claim's example returns
  \<^verbatim>\<open>111111\<close>. That holds while the code patterns are at \<^verbatim>\<open>lastIndex = 0\<close>
  (\<open>fresh_state_first_pattern\<close>), and the code does not keep them there: the
  \<^verbatim>\<open>break\<close> of C1 leaves the pattern that matched at the end of its match. On the
  second call with the claim's own example the first pattern searches from index 20,
  passes over \<^verbatim>\<open>code: 111111\<close> and returns \<^verbatim>\<open>222222\<close>, though the first match of the
  first matching pattern in the content is still \<^verbatim>\<open>111111\<close>.
\<close>

theorem C4_stale_pattern_skips_first_match:
  "call_twice initial_state (js ''Primary code: 111111, backup code: 222222'') None =
     Some (\<lparr>code = Some (js ''111111''), links = None\<rparr>,
           \<lparr>code = Some (js ''222222''), links = None\<rparr>) \<and>
   first_pattern_code codePatterns
     (content_of (js ''Primary code: 111111, backup code: 222222'') None) = Some (js ''111111'')"
  by (simp add: call_twice_def first_pattern_code_def rx_eval extractor_eval)

text \<open>
  C9. When the link patterns are at \<^verbatim>\<open>lastIndex = 0\<close> (they are when the module is
  loaded, and every call leaves them so), the call returns, and its links are the
  matches of the five patterns, pattern after pattern and within one pattern from
  left to right, each without its trailing punctuation, each string kept at its
  first occurrence only; null when there is no match at all.
\<close>

theorem C9_links_in_discovery_order:
  assumes "link_rx st = linkPatterns"
  shows "\<exists>d st'. extractData st text html = Some (d, st') \<and> link_rx st' = linkPatterns \<and>
           links d = link_list (content_of text html) \<and>
           (case links d of
              None \<Rightarrow> found_links (content_of text html) = []
            | Some ls \<Rightarrow>
                ls \<noteq> [] \<and> distinct ls \<and> list_all clean_link ls \<and>
                ls = keep_first (found_links (content_of text html)))"
proof -
  let ?content = "content_of text html"
  let ?found = "found_links ?content"
  from assms have ll: "link_loop (link_rx st) ?content [] = Some (keep_first ?found, linkPatterns)"
    by (simp only: link_loop_fresh)
  obtain res crx where cl: "code_loop (code_rx st) ?content = (res, crx)"
    by (cases "code_loop (code_rx st) ?content")
  have e: "extractData st text html =
      Some (\<lparr>code = res, links = (if keep_first ?found \<noteq> [] then Some (keep_first ?found) else None)\<rparr>,
            \<lparr>code_rx = crx, link_rx = linkPatterns\<rparr>)"
    by (simp add: extractData_def Let_def ll cl)
  have k: "keep_first ?found = [] \<longleftrightarrow> ?found = []"
    by (metis set_keep_first set_empty)
  have c: "list_all clean_link (keep_first ?found)"
    using found_links_clean[of ?content] by (simp add: list_all_iff)
  show ?thesis
  proof (cases "?found = []")
    case True
    with e k show ?thesis by (simp add: link_list_def)
  next
    case False
    with e k c show ?thesis by (simp add: link_list_def)
  qed
qed

theorem C9_witness:
  "link_rx initial_state = linkPatterns \<and>
   (\<exists>d st'. extractData initial_state (js ''Visit us: https://example.com/about'') None =
        Some (d, st') \<and> links d = None) \<and>
   (\<exists>d st'. extractData initial_state (js ''Go https://a.b/verify?token=x1. or https://a.b/verify?token=x1'') None =
        Some (d, st') \<and> links d = Some [js ''https://a.b/verify?token=x1'']) \<and>
   (\<exists>d st'. extractData initial_state (js ''see'') (Some (js ''<p>https://a.b/reset/1</p>'')) =
        Some (d, st') \<and> links d = Some [js ''https://a.b/reset/1''])"
proof -
  have i: "link_rx initial_state = linkPatterns" by (simp add: initial_state_def)
  note c9 = C9_links_in_discovery_order[OF i]
  have e3: "link_list (content_of (js ''see'') (Some (js ''<p>https://a.b/reset/1</p>''))) =
      Some [js ''https://a.b/reset/1'']"
    by (simp add: link_eval rx_eval extractor_eval)
  from c9[of "js ''see''" "Some (js ''<p>https://a.b/reset/1</p>'')"] e3
  have x3: "\<exists>d st'. extractData initial_state (js ''see'') (Some (js ''<p>https://a.b/reset/1</p>'')) =
        Some (d, st') \<and> links d = Some [js ''https://a.b/reset/1'']" by metis
  have e1: "link_list (content_of (js ''Visit us: https://example.com/about'') None) = None"
    by (simp add: link_eval rx_eval extractor_eval)
  have e2: "link_list (content_of (js ''Go https://a.b/verify?token=x1. or https://a.b/verify?token=x1'') None) =
      Some [js ''https://a.b/verify?token=x1'']"
    by (simp add: link_eval rx_eval extractor_eval)
  from c9[of "js ''Visit us: https://example.com/about''" None] e1
  have "\<exists>d st'. extractData initial_state (js ''Visit us: https://example.com/about'') None =
        Some (d, st') \<and> links d = None" by metis
  moreover from c9[of "js ''Go https://a.b/verify?token=x1. or https://a.b/verify?token=x1''" None] e2
  have "\<exists>d st'. extractData initial_state (js ''Go https://a.b/verify?token=x1. or https://a.b/verify?token=x1'') None =
        Some (d, st') \<and> links d = Some [js ''https://a.b/verify?token=x1'']" by metis
  ultimately show ?thesis using i x3 by blast
qed

section \<open>The claims about the MIME normalizer\<close>




text \<open>
  C6, as amended. The claim: the boundary parameter is looked for in the raw
  headers, and text in the body must not trigger the multipart path. The source
  applies the pattern to the whole raw message and never separates headers from body.
  What holds: a message in which \<^verbatim>\<open>boundary=\<close> occurs nowhere, in any letter case,
  takes the single-part path; and the path is decided by the first match of the
  pattern in the whole raw text, whose group is the boundary.
\<close>

theorem C6_boundary_searched_in_whole_message:
  "(\<not> occurs_ci (js ''boundary='') raw \<longrightarrow> parseMimeContent raw = Inr (single_part raw)) \<and>
   (case boundary_of raw of
      None \<Rightarrow> parseMimeContent raw = Inr (single_part raw)
    | Some b \<Rightarrow> parseMimeContent raw = Inr (multi_part b raw))"
proof -
  have "\<not> occurs_ci (js ''boundary='') raw \<Longrightarrow> boundary_of raw = None"
    using boundary_needs_text by blast
  then show ?thesis by (auto simp: parseMimeContent_def split: option.splits)
qed

text \<open>
  C6, the claim as stated fails: the headers of this message have no boundary
  parameter, the body mentions one, and the message takes the multipart path, which
  finds no typed part and returns the empty text; the single-part path would have
  returned the body.
\<close>

theorem C6_body_text_triggers_multipart:
  "boundary_of (spec_headers msg_body_boundary) = None \<and>
   boundary_of msg_body_boundary = Some (js ''abc'') \<and>
   parseMimeContent msg_body_boundary = Inr \<lparr>body_text = [], body_html = None\<rparr> \<and>
   single_part msg_body_boundary = \<lparr>body_text = js ''see boundary=abc'', body_html = None\<rparr>"
  by (simp add: msg_body_boundary_def rx_eval mime_eval)

theorem C6_witness:
  "\<not> occurs_ci (js ''boundary='') msg_plain \<and>
   parseMimeContent msg_plain = Inr \<lparr>body_text = js ''hello'', body_html = None\<rparr>"
proof -
  have n: "\<not> occurs_ci (js ''boundary='') msg_plain"
    by (simp add: msg_plain_def rx_eval mime_eval)
  have s: "single_part msg_plain = \<lparr>body_text = js ''hello'', body_html = None\<rparr>"
    by (simp add: msg_plain_def rx_eval mime_eval)
  from C6_boundary_searched_in_whole_message[of msg_plain] n s show ?thesis by simp
qed




text \<open>
  C8, as amended. The claim: the normalizer never raises; undecodable base64 is
  returned as it is; without a boundary header the single-part path applies; without
  a body separator the whole raw text is the body. All of that holds except the
  boundary part as worded: the boundary is looked for in the whole raw text, so a
  message whose headers have none can still take the multipart path. What holds is
  that a message in which \<^verbatim>\<open>boundary=\<close> occurs nowhere takes the single-part path.
  \<open>undecodable\<close>: the text has a code unit that is neither white space nor \<^verbatim>\<open>=\<close>
  nor in the base64 alphabet.
\<close>

theorem C8_never_raises_and_falls_back:
  "(\<exists>r. parseMimeContent raw = Inr r) \<and>
   (is_base64 scope \<and> \<not> is_qp scope \<and>
      atob (replace_all False (One (Pos [CSpace])) (\<lambda>m. []) body) = Inl e \<longrightarrow>
        transfer_decode scope body = body) \<and>
   (is_base64 scope \<and> \<not> is_qp scope \<and> undecodable body \<longrightarrow>
      transfer_decode scope body = body) \<and>
   (\<not> occurs_ci (js ''boundary='') raw \<and> \<not> occurs_ci (js ''content-type:'') raw \<and>
      is_base64 raw \<and> \<not> is_qp raw \<and> undecodable (body_after_blank_line raw) \<longrightarrow>
        parseMimeContent raw =
          Inr \<lparr>body_text = body_after_blank_line raw, body_html = None\<rparr>) \<and>
   (\<not> occurs_ci (js ''boundary='') raw \<longrightarrow> parseMimeContent raw = Inr (single_part raw)) \<and>
   (\<not> occurs_ci (js ''boundary='') raw \<and> (\<forall>pre post. raw \<noteq> pre @ crlfcrlf @ post) \<longrightarrow>
      parseMimeContent raw =
        Inr (if is_html raw
             then \<lparr>body_text = htmlToText (transfer_decode raw raw),
                   body_html = Some (transfer_decode raw raw)\<rparr>
             else \<lparr>body_text = transfer_decode raw raw, body_html = None\<rparr>)) \<and>
   (\<not> occurs_ci (js ''boundary='') raw \<and> \<not> occurs_ci (js ''content-type:'') raw \<and>
      \<not> occurs_ci (js ''content-transfer-encoding:'') raw \<and>
      (\<forall>pre post. raw \<noteq> pre @ crlfcrlf @ post) \<longrightarrow>
        parseMimeContent raw = Inr \<lparr>body_text = raw, body_html = None\<rparr>)"
proof (intro conjI impI)
  show "\<exists>r. parseMimeContent raw = Inr r"
    by (simp add: parseMimeContent_def split: option.splits)
next
  assume "is_base64 scope \<and> \<not> is_qp scope \<and>
      atob (replace_all False (One (Pos [CSpace])) (\<lambda>m. []) body) = Inl e"
  then show "transfer_decode scope body = body" by (simp add: transfer_decode_def)
next
  assume "is_base64 scope \<and> \<not> is_qp scope \<and> undecodable body"
  then show "transfer_decode scope body = body" by (simp add: transfer_decode_undecodable)
next
  assume a: "\<not> occurs_ci (js ''boundary='') raw \<and> \<not> occurs_ci (js ''content-type:'') raw \<and>
      is_base64 raw \<and> \<not> is_qp raw \<and> undecodable (body_after_blank_line raw)"
  then have "\<not> is_html raw" by (simp add: no_content_type_not_html)
  moreover from a have "transfer_decode raw (body_after_blank_line raw) = body_after_blank_line raw"
    by (simp add: transfer_decode_undecodable)
  ultimately show "parseMimeContent raw =
      Inr \<lparr>body_text = body_after_blank_line raw, body_html = None\<rparr>"
    using a by (simp add: no_boundary_single single_part_body)
next
  assume "\<not> occurs_ci (js ''boundary='') raw"
  then show "parseMimeContent raw = Inr (single_part raw)" by (rule no_boundary_single)
next
  assume a: "\<not> occurs_ci (js ''boundary='') raw \<and> (\<forall>pre post. raw \<noteq> pre @ crlfcrlf @ post)"
  then have "body_after_blank_line raw = raw" by (simp add: no_separator_body)
  with a show "parseMimeContent raw =
        Inr (if is_html raw
             then \<lparr>body_text = htmlToText (transfer_decode raw raw),
                   body_html = Some (transfer_decode raw raw)\<rparr>
             else \<lparr>body_text = transfer_decode raw raw, body_html = None\<rparr>)"
    by (simp add: no_boundary_single single_part_body)
next
  assume a: "\<not> occurs_ci (js ''boundary='') raw \<and> \<not> occurs_ci (js ''content-type:'') raw \<and>
      \<not> occurs_ci (js ''content-transfer-encoding:'') raw \<and>
      (\<forall>pre post. raw \<noteq> pre @ crlfcrlf @ post)"
  then have "body_after_blank_line raw = raw" by (simp add: no_separator_body)
  moreover from a have "\<not> is_html raw" by (simp add: no_content_type_not_html)
  moreover from a have "transfer_decode raw raw = raw" by (simp add: transfer_decode_plain)
  ultimately show "parseMimeContent raw = Inr \<lparr>body_text = raw, body_html = None\<rparr>"
    using a by (simp add: no_boundary_single single_part_body)
qed

text \<open>
  C8, the claim as stated fails: the headers of this message have no boundary
  parameter, the word stands in the body, and the message does not get the
  single-part handling: the multipart path returns the empty text where the
  single-part path returns the body.
\<close>

theorem C8_no_boundary_header_yet_multipart:
  "\<not> occurs_ci (js ''boundary='') (spec_headers msg_boundary_word_in_body) \<and>
   boundary_of (spec_headers msg_boundary_word_in_body) = None \<and>
   parseMimeContent msg_boundary_word_in_body = Inr \<lparr>body_text = [], body_html = None\<rparr> \<and>
   single_part msg_boundary_word_in_body = \<lparr>body_text = js ''boundary=zz'', body_html = None\<rparr>"
  by (simp add: msg_boundary_word_in_body_def rx_eval mime_eval)

theorem C8_witness:
  "\<not> occurs_ci (js ''boundary='') msg_base64_with_body \<and>
   \<not> occurs_ci (js ''content-type:'') msg_base64_with_body \<and>
   is_base64 msg_base64_with_body \<and> \<not> is_qp msg_base64_with_body \<and>
   undecodable (js ''not base64!'') \<and>
   atob (replace_all False (One (Pos [CSpace])) (\<lambda>m. []) (js ''not base64!'')) =
     Inl InvalidCharacterError \<and>
   transfer_decode msg_base64_with_body (js ''not base64!'') = js ''not base64!'' \<and>
   parseMimeContent msg_base64_with_body =
     Inr \<lparr>body_text = js ''not base64!'', body_html = None\<rparr> \<and>
   \<not> occurs_ci (js ''boundary='') msg_no_headers \<and>
   \<not> occurs_ci (js ''content-type:'') msg_no_headers \<and>
   \<not> occurs_ci (js ''content-transfer-encoding:'') msg_no_headers \<and>
   (\<forall>pre post. msg_no_headers \<noteq> pre @ crlfcrlf @ post) \<and>
   parseMimeContent msg_no_headers = Inr \<lparr>body_text = msg_no_headers, body_html = None\<rparr>"
proof -
  have nb: "\<not> occurs_ci (js ''boundary='') msg_base64_with_body"
    by (simp add: msg_base64_with_body_def rx_eval mime_eval)
  have nc: "\<not> occurs_ci (js ''content-type:'') msg_base64_with_body"
    by (simp add: msg_base64_with_body_def rx_eval mime_eval)
  have b64: "is_base64 msg_base64_with_body"
    by (simp add: msg_base64_with_body_def rx_eval mime_eval)
  have qp: "\<not> is_qp msg_base64_with_body"
    by (simp add: msg_base64_with_body_def rx_eval mime_eval)
  have bd: "body_after_blank_line msg_base64_with_body = js ''not base64!''"
    by (simp add: msg_base64_with_body_def body_after_blank_line_def rx_eval mime_eval)
  have un: "undecodable (js ''not base64!'')"
    by (simp add: undecodable_def b64_char_def rx_eval)
  have at: "atob (replace_all False (One (Pos [CSpace])) (\<lambda>m. []) (js ''not base64!'')) =
     Inl InvalidCharacterError"
    by (simp add: strip_ws atob_undecodable[OF un])
  have nb2: "\<not> occurs_ci (js ''boundary='') msg_no_headers"
    by (simp add: msg_no_headers_def rx_eval mime_eval)
  have nc2: "\<not> occurs_ci (js ''content-type:'') msg_no_headers"
    by (simp add: msg_no_headers_def rx_eval mime_eval)
  have ne2: "\<not> occurs_ci (js ''content-transfer-encoding:'') msg_no_headers"
    by (simp add: msg_no_headers_def rx_eval mime_eval)
  have "indexOf msg_no_headers crlfcrlf < 0"
    by (simp add: msg_no_headers_def rx_eval mime_eval)
  then have ns2: "\<forall>pre post. msg_no_headers \<noteq> pre @ crlfcrlf @ post" by (simp add: indexOf_neg)
  note c8 = C8_never_raises_and_falls_back[of msg_base64_with_body msg_base64_with_body
      "js ''not base64!''" InvalidCharacterError]
  note c8' = C8_never_raises_and_falls_back[of msg_no_headers msg_no_headers
      msg_no_headers InvalidCharacterError]
  from c8 b64 qp un have td: "transfer_decode msg_base64_with_body (js ''not base64!'') = js ''not base64!''"
    by blast
  from c8 nb nc b64 qp un bd
  have p1: "parseMimeContent msg_base64_with_body =
     Inr \<lparr>body_text = js ''not base64!'', body_html = None\<rparr>" by simp
  from c8' nb2 nc2 ne2 ns2
  have p2: "parseMimeContent msg_no_headers = Inr \<lparr>body_text = msg_no_headers, body_html = None\<rparr>"
    by blast
  from nb nc b64 qp un at td p1 nb2 nc2 ne2 ns2 p2 show ?thesis by simp
qed

text \<open>
  C10. A segment without \<^verbatim>\<open>\r\n\r\n\<close> leaves the loop state as it is, whatever it
  declares: the loop over the parts gives the same result with or without it.
\<close>

theorem C10_part_without_separator_is_skipped:
  assumes "\<forall>pre post. part \<noteq> pre @ crlfcrlf @ post"
  shows "part_step st part = st \<and>
         foldl part_step st (before @ part # after) = foldl part_step st (before @ after)"
proof -
  from assms have "indexOf part crlfcrlf < 0" by (simp add: indexOf_neg)
  then have "\<And>s. part_step s part = s" by (simp add: part_step_def)
  then show ?thesis by simp
qed

theorem C10_witness:
  "is_plain part_lf_only \<and> (\<forall>pre post. part_lf_only \<noteq> pre @ crlfcrlf @ post) \<and>
   part_step ([], None) part_lf_only = ([], None) \<and>
   foldl part_step ([], None) [part_lf_only] = ([], None)"
proof -
  have p: "is_plain part_lf_only" by (simp add: part_lf_only_def rx_eval mime_eval)
  have "indexOf part_lf_only crlfcrlf < 0" by (simp add: part_lf_only_def rx_eval mime_eval)
  then have n: "\<forall>pre post. part_lf_only \<noteq> pre @ crlfcrlf @ post" by (simp add: indexOf_neg)
  from C10_part_without_separator_is_skipped[OF n, of "([], None)" "[]" "[]"] p n
  show ?thesis by simp
qed

end
